theory Spec2Isabelle
  imports Main "HOL-Library.Sublist" "HOL-Library.Word"
begin

section \<open>Strings\<close>

text \<open>
  Go strings are byte sequences; they are modelled as \<open>string\<close> (a list of 8-bit
  characters). The three library functions the code calls are written out.

  \<^verbatim>\<open>strings.Contains(s, substr)\<close>: \<open>substr\<close> occurs in \<open>s\<close> as a contiguous block.
\<close>

fun Contains :: "string \<Rightarrow> string \<Rightarrow> bool" where
  "Contains [] substr = (substr = [])"
| "Contains (x # xs) substr = (prefix substr (x # xs) \<or> Contains xs substr)"

text \<open>
  \<^verbatim>\<open>strings.Split(s, sep)\<close> for a separator of one byte (the code only splits at
  \<^verbatim>\<open>":"\<close>): the pieces between the separators, at least one piece, the whole string
  when it holds no separator.
\<close>

fun Split :: "string \<Rightarrow> char \<Rightarrow> string list" where
  "Split [] sep = [[]]"
| "Split (x # xs) sep =
     (if x = sep then [] # Split xs sep
      else (case Split xs sep of [] \<Rightarrow> [[x]] | p # ps \<Rightarrow> (x # p) # ps))"

text \<open>
  \<^verbatim>\<open>strings.ToLower(s)\<close> has two paths. A string of ASCII bytes only (every byte
  below \<^verbatim>\<open>utf8.RuneSelf\<close>, 128) is lowered byte by byte: a byte from \<open>A\<close> to \<open>Z\<close>
  is moved by \<^verbatim>\<open>'a' - 'A'\<close>, every other byte is kept. Any other string is decoded
  into runes and lowered with the Unicode tables,
  \<^verbatim>\<open>strings.Map(unicode.ToLower, s)\<close>; that function is the parameter
  \<open>unicodeLower\<close>, so nothing is assumed about it.
\<close>

definition isASCII :: "string \<Rightarrow> bool" where
  "isASCII s = list_all (\<lambda>c. (of_char c :: nat) < 128) s"

definition lower_byte :: "char \<Rightarrow> char" where
  "lower_byte c =
     (let n = (of_char c :: nat) in
      if 65 \<le> n \<and> n \<le> 90 then char_of (n + 32) else c)"

definition ToLower :: "(string \<Rightarrow> string) \<Rightarrow> string \<Rightarrow> string" where
  "ToLower unicodeLower s = (if isASCII s then map lower_byte s else unicodeLower s)"

section \<open>The signature model (package core)\<close>

text \<open>
  \<^verbatim>\<open>type Check struct\<close> of \<^verbatim>\<open>core/signatures.go\<close>. \<open>StatusCode\<close> is a
  \<^verbatim>\<open>*int32\<close>: \<open>None\<close> is the nil pointer of an unset field.
\<close>

record Check =
  MustMatchOne :: "string list"
  MustMatchAll :: "string list"
  MustNotMatch :: "string list"
  StatusCode :: "32 word option"
  Name :: string
  Remediation :: string
  Severity :: string
  Description :: string
  Headers :: "string list"
  NoHeaders :: "string list"

text \<open>
  \<^verbatim>\<open>internal.HTTPResponse\<close> as \<open>Match\<close> reads it: the status code (a Go \<^verbatim>\<open>int\<close>,
  64 bits, which \<open>Match\<close> converts with \<^verbatim>\<open>int32(...)\<close>), the body text and the header
  map from a name to the list of its values.
\<close>

record HTTPResponse =
  RespStatusCode :: "64 word"
  Body :: string
  Header :: "string \<rightharpoonup> string list"

section \<open>The response matcher\<close>

text \<open>
  The run-time panics of the model: an index expression whose index is not below the
  length, and a nil pointer that is dereferenced.
\<close>

datatype panic = IndexOutOfRange | NilDereference

text \<open>
  Each loop of \<open>Match\<close> is one function. A loop that can leave \<open>Match\<close> with
  \<^verbatim>\<open>return false\<close> yields \<open>False\<close> when it did and \<open>True\<close> when it ran to its end.
\<close>

fun match_all_loop :: "string \<Rightarrow> string list \<Rightarrow> bool" where
  "match_all_loop body [] = True"
| "match_all_loop body (m # ms) =
     (if \<not> Contains body m then False else match_all_loop body ms)"

fun match_one_loop :: "string \<Rightarrow> string list \<Rightarrow> bool \<Rightarrow> bool" where
  "match_one_loop body [] found = found"
| "match_one_loop body (m # ms) found =
     match_one_loop body ms (if Contains body m then True else found)"

fun no_match_loop :: "string \<Rightarrow> string list \<Rightarrow> bool" where
  "no_match_loop body [] = True"
| "no_match_loop body (m # ms) =
     (if Contains body m then False else no_match_loop body ms)"

text \<open>
  The loop over the values of a required header (lines 120 to 124). Its body evaluates
  \<^verbatim>\<open>pHeaders[1]\<close>, which panics when the entry held no colon.
\<close>

fun header_values_loop :: "string list \<Rightarrow> string list \<Rightarrow> bool \<Rightarrow> panic + bool" where
  "header_values_loop [] pHeaders vFound = Inr vFound"
| "header_values_loop (n # ns) pHeaders vFound =
     (if length pHeaders \<le> 1 then Inl IndexOutOfRange
      else header_values_loop ns pHeaders
             (if Contains n (pHeaders ! 1) then True else vFound))"

fun headers_loop :: "(string \<rightharpoonup> string list) \<Rightarrow> string list \<Rightarrow> panic + bool" where
  "headers_loop hdr [] = Inr True"
| "headers_loop hdr (header # rest) =
     (let pHeaders = Split header CHR '':'' in
      case hdr (pHeaders ! 0) of
        Some v \<Rightarrow>
          (case header_values_loop v pHeaders False of
             Inl e \<Rightarrow> Inl e
           | Inr vFound \<Rightarrow> if \<not> vFound then Inr False else headers_loop hdr rest)
      | None \<Rightarrow> Inr False)"

text \<open>
  Go's two-valued map index \<^verbatim>\<open>v, kFound := m[k]\<close>: a missing key gives the zero value
  (the nil slice) and \<open>False\<close>.
\<close>

definition lookup_ok :: "(string \<rightharpoonup> string list) \<Rightarrow> string \<Rightarrow> string list \<times> bool" where
  "lookup_ok m k = (case m k of Some v \<Rightarrow> (v, True) | None \<Rightarrow> ([], False))"

text \<open>The loop over the values in the last branch of the forbidden headers (lines 143 to 147).\<close>

fun no_header_values_loop :: "string list \<Rightarrow> string list \<Rightarrow> panic + bool" where
  "no_header_values_loop [] pNoHeaders = Inr True"
| "no_header_values_loop (n # ns) pNoHeaders =
     (if length pNoHeaders \<le> 1 then Inl IndexOutOfRange
      else if Contains n (pNoHeaders ! 1) then Inr False
      else no_header_values_loop ns pNoHeaders)"

fun no_headers_loop :: "(string \<rightharpoonup> string list) \<Rightarrow> string list \<Rightarrow> panic + bool" where
  "no_headers_loop hdr [] = Inr True"
| "no_headers_loop hdr (header # rest) =
     (let pNoHeaders = Split header CHR '':'';
          (v, kFound) = lookup_ok hdr (pNoHeaders ! 0) in
      if kFound then Inr False
      else if kFound \<and> length pNoHeaders = 1 then Inr False
      else (case no_header_values_loop v pNoHeaders of
              Inl e \<Rightarrow> Inl e
            | Inr ok \<Rightarrow> if \<not> ok then Inr False else no_headers_loop hdr rest))"

text \<open>
  \<^verbatim>\<open>func (check *Check) Match(resp *internal.HTTPResponse) bool\<close>. The result is
  \<open>Inr b\<close> when the function returns \<open>b\<close> and \<open>Inl p\<close> when it panics.
\<close>

definition Match :: "Check \<Rightarrow> HTTPResponse \<Rightarrow> panic + bool" where
  "Match check resp =
     (if (case StatusCode check of
            Some sc \<Rightarrow> (ucast (RespStatusCode resp) :: 32 word) \<noteq> sc
          | None \<Rightarrow> False) then Inr False
      else if \<not> match_all_loop (Body resp) (MustMatchAll check) then Inr False
      else if length (MustMatchOne check) > 0
              \<and> \<not> match_one_loop (Body resp) (MustMatchOne check) False then Inr False
      else if length (MustNotMatch check) > 0
              \<and> \<not> no_match_loop (Body resp) (MustNotMatch check) then Inr False
      else case (if length (Headers check) > 0
                 then headers_loop (Header resp) (Headers check) else Inr True) of
        Inl e \<Rightarrow> Inl e
      | Inr ok \<Rightarrow>
          if \<not> ok then Inr False
          else if length (NoHeaders check) > 0
          then no_headers_loop (Header resp) (NoHeaders check)
          else Inr True)"

section \<open>The signature set in the store\<close>

text \<open>
  The filters of \<^verbatim>\<open>core/signatures.go\<close> work on \<^verbatim>\<open>[]*Plugin\<close> and
  \<^verbatim>\<open>[]*Check\<close> in place, so the model keeps an explicit store. An address is a
  number; a pointer is \<open>Some a\<close>, or \<open>None\<close> for nil.
\<close>

type_synonym addr = nat

type_synonym ref = "addr option"

text \<open>
  A Go slice value: the backing array it points to, its length and its capacity. The
  slices of the model start at the first cell of their array (the code only ever reslices
  with \<^verbatim>\<open>[:0]\<close>, which keeps the start); a nil slice has capacity 0. A slice
  value of Go never reaches beyond its array, so the loops below index within range.
\<close>

record slice =
  ptr :: addr
  len :: nat
  cap :: nat

text \<open>
  \<^verbatim>\<open>type Plugin struct\<close>; the field \<open>Checks\<close> holds a slice value.
\<close>

record Plugin =
  Endpoints :: "string list"
  Endpoint :: string
  QueryString :: string
  Checks :: slice
  FollowRedirects :: bool

text \<open>
  \<^verbatim>\<open>type Signatures struct\<close>, the receiver of the two filters.
\<close>

record Signatures =
  Plugins :: slice

text \<open>
  The store: the backing arrays of plugin pointers and of check pointers, the \<open>Plugin\<close>
  and \<open>Check\<close> objects by address, and the next unused array address.
\<close>

record store =
  plugin_arrays :: "addr \<Rightarrow> ref list"
  check_arrays :: "addr \<Rightarrow> ref list"
  plugin_objs :: "addr \<Rightarrow> Plugin"
  check_objs :: "addr \<Rightarrow> Check"
  next_free :: addr

text \<open>
  The array \<^verbatim>\<open>append\<close> allocates when the capacity is used up: the old elements, the
  new one, and nil cells up to the new capacity (which the language leaves to the
  runtime; here twice the new length).
\<close>

definition grow :: "ref list \<Rightarrow> slice \<Rightarrow> ref \<Rightarrow> ref list" where
  "grow arr s x = take (len s) arr @ x # replicate (len s + 1) None"

text \<open>
  \<^verbatim>\<open>append(s, x)\<close> on a \<^verbatim>\<open>[]*Check\<close>: with spare capacity the element is written into
  the backing array of \<open>s\<close> at index \<open>len s\<close>, whoever else shares that array;
  otherwise a new array is allocated.
\<close>

definition append_check :: "store \<Rightarrow> slice \<Rightarrow> ref \<Rightarrow> store \<times> slice" where
  "append_check h s x =
     (if len s < cap s then
        (h\<lparr>check_arrays := (check_arrays h)(ptr s := (check_arrays h (ptr s))[len s := x])\<rparr>,
         s\<lparr>len := len s + 1\<rparr>)
      else
        (h\<lparr>check_arrays := (check_arrays h)(next_free h := grow (check_arrays h (ptr s)) s x),
           next_free := next_free h + 1\<rparr>,
         \<lparr>ptr = next_free h, len = len s + 1, cap = 2 * len s + 2\<rparr>))"

text \<open>
  The same \<^verbatim>\<open>append\<close> on a \<^verbatim>\<open>[]*Plugin\<close>.
\<close>

definition append_plugin :: "store \<Rightarrow> slice \<Rightarrow> ref \<Rightarrow> store \<times> slice" where
  "append_plugin h s x =
     (if len s < cap s then
        (h\<lparr>plugin_arrays := (plugin_arrays h)(ptr s := (plugin_arrays h (ptr s))[len s := x])\<rparr>,
         s\<lparr>len := len s + 1\<rparr>)
      else
        (h\<lparr>plugin_arrays := (plugin_arrays h)(next_free h := grow (plugin_arrays h (ptr s)) s x),
           next_free := next_free h + 1\<rparr>,
         \<lparr>ptr = next_free h, len = len s + 1, cap = 2 * len s + 2\<rparr>))"

text \<open>
  The inner loop of both filters (lines 44 to 48 and 61 to 68),
  \<^verbatim>\<open>for _, check := range plugin.Checks\<close>, from index \<open>i\<close> on. The range expression
  \<open>cs\<close> is evaluated once; each element is read from the array when its turn comes. The
  two filters differ only in the test \<open>keep\<close> that guards the \<^verbatim>\<open>append\<close>.
\<close>

function filter_checks_loop ::
  "(Check \<Rightarrow> bool) \<Rightarrow> slice \<Rightarrow> nat \<Rightarrow> store \<Rightarrow> slice \<Rightarrow> panic + store \<times> slice" where
  "filter_checks_loop keep cs i h filteredChecks =
     (if i < len cs then
        (case check_arrays h (ptr cs) ! i of
           None \<Rightarrow> Inl NilDereference
         | Some c \<Rightarrow>
             if keep (check_objs h c) then
               (case append_check h filteredChecks (Some c) of
                  (h', filteredChecks') \<Rightarrow> filter_checks_loop keep cs (i + 1) h' filteredChecks')
             else filter_checks_loop keep cs (i + 1) h filteredChecks)
      else Inr (h, filteredChecks))"
  by pat_completeness auto

termination
  by (relation "measure (\<lambda>(keep, cs, i, h, f). len cs - i)") auto

text \<open>
  The outer loop (lines 42 to 53 and 59 to 73), \<^verbatim>\<open>for _, plugin := range s.Plugins\<close>:
  \<open>filteredChecks\<close> starts as \<^verbatim>\<open>plugin.Checks[:0]\<close>; a plugin that keeps a check gets
  the filtered slice assigned to its \<open>Checks\<close> field and is appended to
  \<open>filteredPlugins\<close>.
\<close>

function filter_plugins_loop ::
  "(Check \<Rightarrow> bool) \<Rightarrow> slice \<Rightarrow> nat \<Rightarrow> store \<Rightarrow> slice \<Rightarrow> panic + store \<times> slice" where
  "filter_plugins_loop keep ps i h filteredPlugins =
     (if i < len ps then
        (case plugin_arrays h (ptr ps) ! i of
           None \<Rightarrow> Inl NilDereference
         | Some p \<Rightarrow>
             (case filter_checks_loop keep (Checks (plugin_objs h p)) 0 h
                     ((Checks (plugin_objs h p))\<lparr>len := 0\<rparr>) of
                Inl e \<Rightarrow> Inl e
              | Inr (h1, filteredChecks) \<Rightarrow>
                  if len filteredChecks > 0 then
                    (case append_plugin
                            (h1\<lparr>plugin_objs := (plugin_objs h1)
                                   (p := (plugin_objs h1 p)\<lparr>Checks := filteredChecks\<rparr>)\<rparr>)
                            filteredPlugins (Some p) of
                       (h2, filteredPlugins') \<Rightarrow>
                         filter_plugins_loop keep ps (i + 1) h2 filteredPlugins')
                  else filter_plugins_loop keep ps (i + 1) h1 filteredPlugins))
      else Inr (h, filteredPlugins))"
  by pat_completeness auto

termination
  by (relation "measure (\<lambda>(keep, ps, i, h, f). len ps - i)") auto

text \<open>
  The body shared by the two filters: \<open>filteredPlugins\<close> starts as
  \<^verbatim>\<open>s.Plugins[:0]\<close> and is assigned to \<^verbatim>\<open>s.Plugins\<close> at the end.
\<close>

definition filter_signatures ::
  "(Check \<Rightarrow> bool) \<Rightarrow> store \<Rightarrow> Signatures \<Rightarrow> panic + store \<times> Signatures" where
  "filter_signatures keep h s =
     (case filter_plugins_loop keep (Plugins s) 0 h ((Plugins s)\<lparr>len := 0\<rparr>) of
        Inl e \<Rightarrow> Inl e
      | Inr (h', filteredPlugins) \<Rightarrow> Inr (h', s\<lparr>Plugins := filteredPlugins\<rparr>))"

text \<open>
  \<^verbatim>\<open>func (s *Signatures) FilterBySeverity(severityFilter string)\<close>: the test of line 45.
\<close>

definition FilterBySeverity ::
  "string \<Rightarrow> store \<Rightarrow> Signatures \<Rightarrow> panic + store \<times> Signatures" where
  "FilterBySeverity severityFilter h s =
     filter_signatures (\<lambda>check. Severity check = severityFilter) h s"

text \<open>
  The loop over \<open>names\<close> of \<open>FilterByNames\<close> (lines 62 to 67): \<open>True\<close> when some
  name reached the \<^verbatim>\<open>append\<close> and the \<^verbatim>\<open>break\<close>.
\<close>

fun names_loop :: "(string \<Rightarrow> string) \<Rightarrow> string \<Rightarrow> string list \<Rightarrow> bool" where
  "names_loop unicodeLower checkName [] = False"
| "names_loop unicodeLower checkName (name # rest) =
     (if Contains (ToLower unicodeLower checkName) (ToLower unicodeLower name) then True
      else names_loop unicodeLower checkName rest)"

text \<open>
  \<^verbatim>\<open>func (s *Signatures) FilterByNames(names []string)\<close>; \<open>unicodeLower\<close> is
  the Unicode path of \<^verbatim>\<open>strings.ToLower\<close>.
\<close>

definition FilterByNames ::
  "(string \<Rightarrow> string) \<Rightarrow> string list \<Rightarrow> store \<Rightarrow> Signatures \<Rightarrow>
     panic + store \<times> Signatures" where
  "FilterByNames unicodeLower names h s =
     filter_signatures (\<lambda>check. names_loop unicodeLower (Name check) names) h s"

declare filter_checks_loop.simps [simp del] filter_plugins_loop.simps [simp del]

section \<open>The scan (package app)\<close>

text \<open>
  Modelled from the spec: \<^verbatim>\<open>data.SeverityType\<close> is a string type of package
  \<^verbatim>\<open>data\<close>, which is not among the sources; its four constants are the level names the
  specification lists (\<^verbatim>\<open>Informational|Low|Medium|High\<close>), the same names the message of
  \<open>CheckStructFields\<close> gives as the valid ones.
\<close>

definition High :: string where "High = ''High''"

definition Medium :: string where "Medium = ''Medium''"

definition Low :: string where "Low = ''Low''"

definition Informational :: string where "Informational = ''Informational''"

text \<open>
  Modelled from the spec: \<^verbatim>\<open>SeverityType.IsValid\<close> (package \<^verbatim>\<open>data\<close>) accepts the four
  known levels; \<open>True\<close> here is the nil error of the Go method.
\<close>

definition IsValid :: "string \<Rightarrow> bool" where
  "IsValid st = (st = High \<or> st = Medium \<or> st = Low \<or> st = Informational)"

text \<open>
  The structs of package \<^verbatim>\<open>data\<close> as \<^verbatim>\<open>app/scan.go\<close> reads them. The fields
  \<^verbatim>\<open>Description\<close>, \<^verbatim>\<open>Remediation\<close> and \<^verbatim>\<open>Severity\<close> of a check are pointers
  (\<open>None\<close> is nil); the matching conditions of a check are read only by
  \<^verbatim>\<open>pkg.ResponseAnalysis\<close>.
\<close>

record data_Check =
  PluginName :: string
  data_Description :: "string option"
  data_Remediation :: "string option"
  data_Severity :: "string option"

record data_Plugin =
  URI :: string
  data_QueryString :: string
  data_Checks :: "data_Check list"
  data_FollowRedirects :: "bool option"

record Config =
  Insecure :: bool
  cfg_Plugins :: "data_Plugin list"

record Output =
  Domain :: string
  out_PluginName :: string
  TestedURL :: string
  out_Severity :: string
  out_Remediation :: string

text \<open>
  \<^verbatim>\<open>func BlockCI(severity string, severityType data.SeverityType) bool\<close>: a switch on
  the threshold, each case returning true for the levels at or above it; everything else
  falls through to \<^verbatim>\<open>return false\<close>.
\<close>

definition BlockCI :: "string \<Rightarrow> string \<Rightarrow> bool" where
  "BlockCI severity severityType =
     (if severity = ''High'' then
        (if severityType = High then True else False)
      else if severity = ''Medium'' then
        (if severityType = High \<or> severityType = Medium then True else False)
      else if severity = ''Low'' then
        (if severityType = High \<or> severityType = Medium \<or> severityType = Low then True
         else False)
      else if severity = ''Informational'' then
        (if severityType = High \<or> severityType = Medium \<or> severityType = Low
            \<or> severityType = Informational then True else False)
      else False)"

text \<open>
  The body of the inner loop of \<open>CheckStructFields\<close> for one check: \<open>Some msg\<close> is
  \<^verbatim>\<open>log.Fatal(msg)\<close>, which ends the process.
\<close>

definition check_fields :: "data_Check \<Rightarrow> string option" where
  "check_fields check =
     (if data_Description check = None then
        Some (''Missing description field in '' @ PluginName check
              @ '' plugin checks. Stopping execution.'')
      else if data_Remediation check = None then
        Some (''Missing remediation field in '' @ PluginName check
              @ '' plugin checks. Stopping execution.'')
      else case data_Severity check of
        None \<Rightarrow>
          Some (''Missing severity field in '' @ PluginName check
                @ '' plugin checks. Stopping execution.'')
      | Some sev \<Rightarrow>
          if \<not> IsValid sev then
            Some ('' ------ Unknown severity type : '' @ sev
                  @ '' . Only Informational / Low / Medium / High are valid severity types.'')
          else None)"

fun fields_checks_loop :: "data_Check list \<Rightarrow> string option" where
  "fields_checks_loop [] = None"
| "fields_checks_loop (check # rest) =
     (case check_fields check of Some msg \<Rightarrow> Some msg | None \<Rightarrow> fields_checks_loop rest)"

fun fields_plugins_loop :: "data_Plugin list \<Rightarrow> string option" where
  "fields_plugins_loop [] = None"
| "fields_plugins_loop (plugin # rest) =
     (case fields_checks_loop (data_Checks plugin) of
        Some msg \<Rightarrow> Some msg
      | None \<Rightarrow> fields_plugins_loop rest)"

text \<open>
  \<^verbatim>\<open>func CheckStructFields(conf data.Config)\<close>: the first check that fails ends the
  process with its message; \<open>None\<close> when the function returns.
\<close>

definition CheckStructFields :: "Config \<Rightarrow> string option" where
  "CheckStructFields conf = fields_plugins_loop (cfg_Plugins conf)"

text \<open>
  The variables the goroutines of \<open>Scan\<close> share (\<open>hit\<close>, \<open>block\<close>, \<open>out\<close>),
  and the URLs requested so far.
\<close>

record scan_state =
  hit :: bool
  block :: bool
  out :: "Output list"
  requests :: "string list"

text \<open>
  The command line flags \<open>Scan\<close> reads.
\<close>

record scan_flags =
  url :: string
  insecure :: bool
  suffix_flag :: string
  prefix_flag :: string
  httpRequestTimeout :: int
  blockedFlag :: string

text \<open>
  The two functions of package \<^verbatim>\<open>pkg\<close> the loop calls, as parameters:
  \<^verbatim>\<open>pkg.HTTPGet\<close> (what the network answers may depend on the requests made before; a
  nil response is \<open>None\<close>) and \<^verbatim>\<open>pkg.ResponseAnalysis\<close>.
\<close>

record 'r pkg =
  HTTPGet :: "string list \<Rightarrow> bool \<Rightarrow> string \<Rightarrow> bool \<Rightarrow> int \<Rightarrow> 'r option"
  ResponseAnalysis :: "'r \<Rightarrow> data_Check \<Rightarrow> bool"

text \<open>
  The loop over the checks of a plugin (lines 119 to 136). A match sets \<open>hit\<close>, sets
  \<open>block\<close> when \<open>BlockCI\<close> says so, and appends a hit to \<open>out\<close>. The pointers
  \<^verbatim>\<open>*check.Severity\<close> and \<^verbatim>\<open>*check.Remediation\<close> are dereferenced; a panic is
  returned with the requests made before it.
\<close>

fun checks_loop ::
  "'r pkg \<Rightarrow> scan_flags \<Rightarrow> string \<Rightarrow> data_Plugin \<Rightarrow> 'r \<Rightarrow> data_Check list \<Rightarrow> scan_state
   \<Rightarrow> panic \<times> string list + scan_state" where
  "checks_loop pk fl domain plugin httpResponse [] st = Inr st"
| "checks_loop pk fl domain plugin httpResponse (check # rest) st =
     (if ResponseAnalysis pk httpResponse check then
        (case data_Severity check of
           None \<Rightarrow> Inl (NilDereference, requests st)
         | Some sev \<Rightarrow>
             let st1 = st\<lparr>hit := True\<rparr>;
                 st2 = (if BlockCI (blockedFlag fl) sev then st1\<lparr>block := True\<rparr> else st1)
             in (case data_Remediation check of
                   None \<Rightarrow> Inl (NilDereference, requests st)
                 | Some rem \<Rightarrow>
                     checks_loop pk fl domain plugin httpResponse rest
                       (st2\<lparr>out := out st2 @
                          [\<lparr>Domain = domain, out_PluginName = PluginName check,
                            TestedURL = URI plugin, out_Severity = sev,
                            out_Remediation = rem\<rparr>]\<rparr>)))
      else checks_loop pk fl domain plugin httpResponse rest st)"

text \<open>
  The loop over the plugins (lines 98 to 139), run for one domain: the URL is built, the
  request is made, and a response that is not nil goes through the checks.
\<close>

fun plugins_loop ::
  "'r pkg \<Rightarrow> scan_flags \<Rightarrow> bool \<Rightarrow> string \<Rightarrow> data_Plugin list \<Rightarrow> scan_state
   \<Rightarrow> panic \<times> string list + scan_state" where
  "plugins_loop pk fl insec domain [] st = Inr st"
| "plugins_loop pk fl insec domain (plugin # rest) st =
     (let tmpURL = prefix_flag fl @ domain @ suffix_flag fl @ URI plugin;
          tmpURL = (if data_QueryString plugin \<noteq> [] then tmpURL @ ''?'' @ data_QueryString plugin
                    else tmpURL);
          followRedirects = (if data_FollowRedirects plugin \<noteq> None
                                \<and> data_FollowRedirects plugin = Some False then False else True);
          httpResponse = HTTPGet pk (requests st) insec tmpURL followRedirects
                           (httpRequestTimeout fl);
          st1 = st\<lparr>requests := requests st @ [tmpURL]\<rparr>
      in case httpResponse of
           None \<Rightarrow> plugins_loop pk fl insec domain rest st1
         | Some resp \<Rightarrow>
             (case checks_loop pk fl domain plugin resp (data_Checks plugin) st1 of
                Inl p \<Rightarrow> Inl p
              | Inr st2 \<Rightarrow> plugins_loop pk fl insec domain rest st2))"

text \<open>
  The goroutines, one per entry of \<open>urlList\<close> (lines 94 to 141), taken one after the
  other, each with the URL it builds. They only ever set \<open>hit\<close> and \<open>block\<close> and
  append to \<open>out\<close>, so the flags at the end do not depend on the order; how the
  goroutines overlap in time is the subject of the step relation further down.
\<close>

fun domains_loop ::
  "'r pkg \<Rightarrow> scan_flags \<Rightarrow> bool \<Rightarrow> Config \<Rightarrow> string list \<Rightarrow> scan_state
   \<Rightarrow> panic \<times> string list + scan_state" where
  "domains_loop pk fl insec y [] st = Inr st"
| "domains_loop pk fl insec y (domain # rest) st =
     (case plugins_loop pk fl insec domain (cfg_Plugins y) st of
        Inl p \<Rightarrow> Inl p
      | Inr st1 \<Rightarrow> domains_loop pk fl insec y rest st1)"

text \<open>
  How \<open>Scan\<close> ends: \<^verbatim>\<open>log.Fatal\<close>, a panic, \<^verbatim>\<open>os.Exit\<close> with a status, or a
  return to its caller.
\<close>

datatype outcome = Fatal string | Panicked panic | Exit nat | Returned

text \<open>
  Lines 162 to 170.
\<close>

definition exit_decision :: "string \<Rightarrow> scan_state \<Rightarrow> outcome" where
  "exit_decision blocked st =
     (if hit st then
        (if blocked \<noteq> [] \<and> \<not> block st then Exit 0 else Exit 1)
      else Returned)"

text \<open>
  The scan proper (lines 55 to 143): the URL list, the \<open>insecure\<close> setting, the shared
  variables at their initial values, the goroutines.
\<close>

definition scan_run ::
  "'r pkg \<Rightarrow> scan_flags \<Rightarrow> string list \<Rightarrow> Config
   \<Rightarrow> panic \<times> string list + scan_state" where
  "scan_run pk fl urlFileLines y =
     (let urlList = (if url fl \<noteq> [] then [url fl] else []) @ urlFileLines;
          insec = (if insecure fl then insecure fl else Insecure y)
      in domains_loop pk fl insec y urlList
           \<lparr>hit = False, block = False, out = [], requests = []\<rparr>)"

text \<open>
  \<^verbatim>\<open>func Scan(cmd *cobra.Command, args []string)\<close> from the parsed configuration on:
  \<open>CheckStructFields\<close> first (line 86), then the scan, then the exit decision. The
  second component lists the URLs that were requested.
\<close>

definition Scan ::
  "'r pkg \<Rightarrow> scan_flags \<Rightarrow> string list \<Rightarrow> Config \<Rightarrow> outcome \<times> string list" where
  "Scan pk fl urlFileLines y =
     (case CheckStructFields y of
        Some msg \<Rightarrow> (Fatal msg, [])
      | None \<Rightarrow>
          (case scan_run pk fl urlFileLines y of
             Inl (p, reqs) \<Rightarrow> (Panicked p, reqs)
           | Inr st \<Rightarrow> (exit_decision (blockedFlag fl) st, requests st)))"

text \<open>
  The exit status of the process: 1 after \<^verbatim>\<open>log.Fatal\<close>, 2 after a panic, 0 when
  \<open>Scan\<close> returns and the program ends normally.
\<close>

fun exit_status :: "outcome \<Rightarrow> nat" where
  "exit_status (Fatal msg) = 1"
| "exit_status (Panicked p) = 2"
| "exit_status (Exit n) = n"
| "exit_status Returned = 0"

section \<open>The goroutines of a scan\<close>

text \<open>
  The goroutines of \<open>Scan\<close> (lines 91 to 143). A goroutine is about to handle plugin
  \<open>j\<close> (\<open>Ready j\<close>), is waiting inside \<^verbatim>\<open>pkg.HTTPGet\<close> for plugin \<open>j\<close>
  (\<open>InFlight j\<close>), or has run \<^verbatim>\<open>wg.Done()\<close>.
\<close>

datatype goroutine = Ready nat | InFlight nat | Finished

text \<open>
  The main loop's counter \<open>i\<close> and the goroutines launched so far.
\<close>

record sched =
  launched :: nat
  goroutines :: "goroutine list"

text \<open>
  The number of requests in flight.
\<close>

fun is_in_flight :: "goroutine \<Rightarrow> bool" where
  "is_in_flight (InFlight j) = True"
| "is_in_flight g = False"

definition in_flight :: "sched \<Rightarrow> nat" where
  "in_flight st = length (filter is_in_flight (goroutines st))"

text \<open>
  One step of a scan of \<open>n\<close> URLs with \<open>m\<close> plugins: the main loop launches the next
  goroutine (the \<^verbatim>\<open>go\<close> statement does not wait), a goroutine calls
  \<^verbatim>\<open>pkg.HTTPGet\<close>, a call returns, or a goroutine that has handled every plugin ends.
  Nothing in the code makes a goroutine wait for another.
\<close>

inductive scan_step :: "nat \<Rightarrow> nat \<Rightarrow> sched \<Rightarrow> sched \<Rightarrow> bool" for n m where
  launch: "launched st < n \<Longrightarrow>
     scan_step n m st (st\<lparr>launched := launched st + 1, goroutines := goroutines st @ [Ready 0]\<rparr>)"
| request: "k < length (goroutines st) \<Longrightarrow> goroutines st ! k = Ready j \<Longrightarrow> j < m \<Longrightarrow>
     scan_step n m st (st\<lparr>goroutines := (goroutines st)[k := InFlight j]\<rparr>)"
| response: "k < length (goroutines st) \<Longrightarrow> goroutines st ! k = InFlight j \<Longrightarrow>
     scan_step n m st (st\<lparr>goroutines := (goroutines st)[k := Ready (j + 1)]\<rparr>)"
| finish: "k < length (goroutines st) \<Longrightarrow> goroutines st ! k = Ready m \<Longrightarrow>
     scan_step n m st (st\<lparr>goroutines := (goroutines st)[k := Finished]\<rparr>)"

text \<open>
  The states a scan can be in.
\<close>

inductive scan_reachable :: "nat \<Rightarrow> nat \<Rightarrow> sched \<Rightarrow> bool" for n m where
  start: "scan_reachable n m \<lparr>launched = 0, goroutines = []\<rparr>"
| step: "scan_reachable n m st \<Longrightarrow> scan_step n m st st' \<Longrightarrow> scan_reachable n m st'"

section \<open>Views, invariants and the specification's notions\<close>

text \<open>
  What a holder of a slice value observes in a store: its first \<open>len\<close> cells.
\<close>

definition plugin_refs :: "store \<Rightarrow> slice \<Rightarrow> ref list" where
  "plugin_refs h s = take (len s) (plugin_arrays h (ptr s))"

definition check_refs :: "store \<Rightarrow> slice \<Rightarrow> ref list" where
  "check_refs h s = take (len s) (check_arrays h (ptr s))"

text \<open>
  \<open>overwrite xs k ys\<close>: the list \<open>xs\<close> with \<open>ys\<close> written over it from position \<open>k\<close>.
\<close>

definition overwrite :: "'a list \<Rightarrow> nat \<Rightarrow> 'a list \<Rightarrow> 'a list" where
  "overwrite xs k ys = take k xs @ ys @ drop (k + length ys) xs"

text \<open>
  The test of a filter on a check pointer.
\<close>

definition ref_keeps :: "(Check \<Rightarrow> bool) \<Rightarrow> store \<Rightarrow> ref \<Rightarrow> bool" where
  "ref_keeps keep h r = (case r of None \<Rightarrow> False | Some c \<Rightarrow> keep (check_objs h c))"

text \<open>
  The check list of a plugin pointer, as a slice value and as the pointers a filter keeps
  of it.
\<close>

definition checks_slice :: "store \<Rightarrow> ref \<Rightarrow> slice" where
  "checks_slice h r =
     (case r of None \<Rightarrow> \<lparr>ptr = 0, len = 0, cap = 0\<rparr> | Some p \<Rightarrow> Checks (plugin_objs h p))"

definition kept_checks :: "(Check \<Rightarrow> bool) \<Rightarrow> store \<Rightarrow> ref \<Rightarrow> ref list" where
  "kept_checks keep h r = filter (ref_keeps keep h) (check_refs h (checks_slice h r))"

text \<open>
  A check slice is in order when its length is within its capacity, the capacity within
  the backing array, and no element is nil.
\<close>

definition slice_ok :: "store \<Rightarrow> slice \<Rightarrow> bool" where
  "slice_ok h cs =
     (len cs \<le> cap cs \<and> cap cs \<le> length (check_arrays h (ptr cs)) \<and>
      None \<notin> set (check_refs h cs))"

text \<open>
  A list of plugin pointers represents plugins with check lists of their own: no pointer is
  nil, no plugin occurs twice, every check slice is in order, and two plugins that have
  checks do not share a backing array.
\<close>

definition plugins_ok :: "store \<Rightarrow> ref list \<Rightarrow> bool" where
  "plugins_ok h rs =
     (None \<notin> set rs \<and> distinct rs \<and> list_all (\<lambda>r. slice_ok h (checks_slice h r)) rs \<and>
      distinct (map (\<lambda>r. ptr (checks_slice h r)) (filter (\<lambda>r. 0 < len (checks_slice h r)) rs)))"

text \<open>
  The store represents a signature set: the plugin slice is within its array and its
  elements satisfy \<open>plugins_ok\<close>. This is how the YAML loader builds a signature set of
  plugins and checks.
\<close>

definition wf_signatures :: "store \<Rightarrow> Signatures \<Rightarrow> bool" where
  "wf_signatures h s =
     (len (Plugins s) \<le> cap (Plugins s) \<and>
      cap (Plugins s) \<le> length (plugin_arrays h (ptr (Plugins s))) \<and>
      plugins_ok h (plugin_refs h (Plugins s)))"

text \<open>
  The store after the loop body has kept plugin \<open>p\<close>, up to the append to
  \<open>filteredPlugins\<close>: the kept checks written over the start of its array, its
  \<open>Checks\<close> field shortened.
\<close>

definition commit_plugin :: "(Check \<Rightarrow> bool) \<Rightarrow> store \<Rightarrow> addr \<Rightarrow> store" where
  "commit_plugin keep h p =
     (let cs = Checks (plugin_objs h p); K = kept_checks keep h (Some p) in
      h\<lparr>check_arrays := (check_arrays h)(ptr cs := overwrite (check_arrays h (ptr cs)) 0 K),
        plugin_objs := (plugin_objs h)(p := (plugin_objs h p)\<lparr>Checks := cs\<lparr>len := length K\<rparr>\<rparr>)\<rparr>)"

text \<open>
  A plugin is kept when a filter keeps one of its checks.
\<close>

definition plugin_kept :: "(Check \<Rightarrow> bool) \<Rightarrow> store \<Rightarrow> ref \<Rightarrow> bool" where
  "plugin_kept keep h r = (kept_checks keep h r \<noteq> [])"

text \<open>
  What a run of the outer loop over the plugins \<open>rs\<close> does to the store, apart from the
  plugin array: no \<open>Check\<close> object changes, a kept plugin changes in its \<open>Checks\<close>
  field only, and only the check arrays of the plugins in \<open>rs\<close> are written.
\<close>

definition filter_effect :: "(Check \<Rightarrow> bool) \<Rightarrow> ref list \<Rightarrow> store \<Rightarrow> store \<Rightarrow> bool" where
  "filter_effect keep rs h h' =
     (check_objs h' = check_objs h \<and> next_free h' = next_free h \<and>
      (\<forall>q. plugin_objs h' q =
         (if Some q \<in> set rs \<and> plugin_kept keep h (Some q)
          then (plugin_objs h q)\<lparr>Checks := (Checks (plugin_objs h q))
                  \<lparr>len := length (kept_checks keep h (Some q))\<rparr>\<rparr>
          else plugin_objs h q)) \<and>
      (\<forall>a. (\<forall>q. Some q \<in> set rs \<longrightarrow>
               len (Checks (plugin_objs h q)) = 0 \<or> ptr (Checks (plugin_objs h q)) \<noteq> a) \<longrightarrow>
           check_arrays h' a = check_arrays h a) \<and>
      (\<forall>q. Some q \<in> set rs \<and> 0 < len (Checks (plugin_objs h q)) \<longrightarrow>
           check_arrays h' (ptr (Checks (plugin_objs h q))) =
             overwrite (check_arrays h (ptr (Checks (plugin_objs h q)))) 0
               (kept_checks keep h (Some q))))"

text \<open>
  The signature set a store holds: the plugins in order, each with its checks in order.
\<close>

definition signature_view :: "store \<Rightarrow> Signatures \<Rightarrow> (ref \<times> ref list) list" where
  "signature_view h s =
     map (\<lambda>r. (r, check_refs h (checks_slice h r))) (plugin_refs h (Plugins s))"

text \<open>
  The filtered signature set as the specification words it: every plugin keeps the checks
  that pass the test, and a plugin left with no check is dropped.
\<close>

definition filtered_view ::
  "(ref \<Rightarrow> bool) \<Rightarrow> (ref \<times> ref list) list \<Rightarrow> (ref \<times> ref list) list" where
  "filtered_view keepr v =
     filter (\<lambda>(r, cs). cs \<noteq> []) (map (\<lambda>(r, cs). (r, filter keepr cs)) v)"

text \<open>
  The ordered scale of the specification, Informational < Low < Medium < High, and what
  it means for an observed severity to reach a threshold on it.
\<close>

definition severity_rank :: "string \<Rightarrow> nat option" where
  "severity_rank s =
     (if s = ''Informational'' then Some 0
      else if s = ''Low'' then Some 1
      else if s = ''Medium'' then Some 2
      else if s = ''High'' then Some 3
      else None)"

definition reaches_threshold :: "string \<Rightarrow> string \<Rightarrow> bool" where
  "reaches_threshold threshold observed =
     (case severity_rank threshold of
        None \<Rightarrow> False
      | Some t \<Rightarrow> (case severity_rank observed of None \<Rightarrow> False | Some s \<Rightarrow> t \<le> s))"

text \<open>
  What validation establishes for the loop: the pointers it dereferences are not nil.
\<close>

definition checks_ok :: "data_Check list \<Rightarrow> bool" where
  "checks_ok cs = (\<forall>c\<in>set cs. data_Severity c \<noteq> None \<and> data_Remediation c \<noteq> None)"

text \<open>
  The shared flags say what \<open>out\<close> holds: \<open>hit\<close> when there is a hit, \<open>block\<close> when
  \<open>BlockCI\<close> holds for a hit.
\<close>

definition flags_inv :: "string \<Rightarrow> scan_state \<Rightarrow> bool" where
  "flags_inv fl st =
     (hit st = (out st \<noteq> []) \<and>
      block st = (\<exists>h\<in>set (out st). BlockCI fl (out_Severity h)))"








section \<open>Example values and observations\<close>

text \<open>
  The conditions of \<open>Match\<close> before the header lists: status code and the three body
  lists.
\<close>

definition passes_body :: "Check \<Rightarrow> HTTPResponse \<Rightarrow> bool" where
  "passes_body check resp =
     (\<not> (case StatusCode check of
            Some sc \<Rightarrow> (ucast (RespStatusCode resp) :: 32 word) \<noteq> sc
          | None \<Rightarrow> False) \<and>
      match_all_loop (Body resp) (MustMatchAll check) \<and>
      \<not> (length (MustMatchOne check) > 0
           \<and> \<not> match_one_loop (Body resp) (MustMatchOne check) False) \<and>
      \<not> (length (MustNotMatch check) > 0
           \<and> \<not> no_match_loop (Body resp) (MustNotMatch check)))"

text \<open>
  Example values: a check with no condition, and a response.
\<close>

definition mk_check :: "string \<Rightarrow> string \<Rightarrow> Check" where
  "mk_check n sev =
     \<lparr>MustMatchOne = [], MustMatchAll = [], MustNotMatch = [], StatusCode = None,
      Name = n, Remediation = ''fix it'', Severity = sev, Description = ''found'',
      Headers = [], NoHeaders = []\<rparr>"

definition mk_response :: "(string \<rightharpoonup> string list) \<Rightarrow> HTTPResponse" where
  "mk_response hdr = \<lparr>RespStatusCode = 200, Body = ''<html>Login</html>'', Header = hdr\<rparr>"

text \<open>
  A plugin with a given check list, and an example store: two plugins, the first with
  the check ``Admin-Panel'' (Low), the second with ``Panel'' (Low) and ``Admin-Login''
  (High).
\<close>

definition mk_plugin :: "slice \<Rightarrow> Plugin" where
  "mk_plugin cs =
     \<lparr>Endpoints = [], Endpoint = ''/admin'', QueryString = [], Checks = cs,
      FollowRedirects = True\<rparr>"

definition ex_store :: store where
  "ex_store =
     \<lparr>plugin_arrays = (\<lambda>a. [])(0 := [Some 0, Some 1]),
      check_arrays = (\<lambda>a. [])(0 := [Some 0], 1 := [Some 1, Some 2]),
      plugin_objs = (\<lambda>a. mk_plugin \<lparr>ptr = 0, len = 0, cap = 0\<rparr>)
        (0 := mk_plugin \<lparr>ptr = 0, len = 1, cap = 1\<rparr>,
         1 := mk_plugin \<lparr>ptr = 1, len = 2, cap = 2\<rparr>),
      check_objs = (\<lambda>a. mk_check ''Panel'' ''Low'')
        (0 := mk_check ''Admin-Panel'' ''Low'', 2 := mk_check ''Admin-Login'' ''High''),
      next_free = 2\<rparr>"

definition ex_signatures :: Signatures where
  "ex_signatures = \<lparr>Plugins = \<lparr>ptr = 0, len = 2, cap = 2\<rparr>\<rparr>"

text \<open>
  Example values for the scan: a check with all three fields, a configuration of one
  plugin, the flags, and a network that answers every request with a response on which
  every check matches.
\<close>

definition mk_data_check :: "string \<Rightarrow> string \<Rightarrow> data_Check" where
  "mk_data_check n sev =
     \<lparr>PluginName = n, data_Description = Some ''found'', data_Remediation = Some ''fix it'',
      data_Severity = Some sev\<rparr>"

definition mk_config :: "data_Check list \<Rightarrow> Config" where
  "mk_config cs =
     \<lparr>Insecure = False,
      cfg_Plugins = [\<lparr>URI = ''/admin'', data_QueryString = [], data_Checks = cs,
                      data_FollowRedirects = None\<rparr>]\<rparr>"

definition ex_flags :: "string \<Rightarrow> scan_flags" where
  "ex_flags blocked =
     \<lparr>url = ''example.org'', insecure = False, suffix_flag = [], prefix_flag = ''https://'',
      httpRequestTimeout = 10, blockedFlag = blocked\<rparr>"

definition ex_pkg :: "bool pkg" where
  "ex_pkg =
     \<lparr>HTTPGet = (\<lambda>reqs insec u follow timeout. Some True),
      ResponseAnalysis = (\<lambda>resp check. resp)\<rparr>"

text \<open>
  What a filter leaves behind for a holder of the old slice values: no \<open>Check\<close> object
  has changed, a \<open>Plugin\<close> object has changed in its \<open>Checks\<close> field at most, and the
  old plugin list and the old check list of each plugin show the kept entries written
  over their first positions, the entries after them as they were.
\<close>

definition written_in_place ::
  "(Check \<Rightarrow> bool) \<Rightarrow> store \<Rightarrow> Signatures \<Rightarrow> store \<Rightarrow> Signatures \<Rightarrow> bool" where
  "written_in_place keep h s h' s' =
     (check_objs h' = check_objs h \<and>
      (\<forall>q. plugin_objs h' q = (plugin_objs h q)\<lparr>Checks := Checks (plugin_objs h' q)\<rparr>) \<and>
      plugin_refs h' (Plugins s) =
        overwrite (plugin_refs h (Plugins s)) 0 (plugin_refs h' (Plugins s')) \<and>
      (\<forall>r\<in>set (plugin_refs h (Plugins s)).
         check_refs h' (checks_slice h r) =
           overwrite (check_refs h (checks_slice h r)) 0
             (filter (ref_keeps keep h) (check_refs h (checks_slice h r)))))"

text \<open>
  The signature set after a call of a filter, and what the holder of a slice value
  observes after it; \<open>None\<close> when the call panicked.
\<close>

definition view_after :: "panic + store \<times> Signatures \<Rightarrow> (ref \<times> ref list) list option" where
  "view_after res =
     (case res of Inl e \<Rightarrow> None | Inr (h', s') \<Rightarrow> Some (signature_view h' s'))"

definition plugins_seen_after :: "panic + store \<times> Signatures \<Rightarrow> slice \<Rightarrow> ref list option" where
  "plugins_seen_after res alias =
     (case res of Inl e \<Rightarrow> None | Inr (h', s') \<Rightarrow> Some (plugin_refs h' alias))"

definition checks_seen_after :: "panic + store \<times> Signatures \<Rightarrow> slice \<Rightarrow> ref list option" where
  "checks_seen_after res alias =
     (case res of Inl e \<Rightarrow> None | Inr (h', s') \<Rightarrow> Some (check_refs h' alias))"

section \<open>Properties of the matcher\<close>

lemma Split_not_Nil: "Split s sep \<noteq> []"
  by (induction s) (auto split: list.splits)

lemma length_Split_colon: "sep \<in> set s \<Longrightarrow> 2 \<le> length (Split s sep)"
proof (induction s)
  case Nil
  then show ?case by simp
next
  case (Cons x xs)
  show ?case
  proof (cases "x = sep")
    case True
    have "1 \<le> length (Split xs sep)"
      using Split_not_Nil [of xs sep] by (cases "Split xs sep") auto
    with True show ?thesis by simp
  next
    case False
    with Cons have "2 \<le> length (Split xs sep)" by simp
    then show ?thesis
      using False by (cases "Split xs sep") auto
  qed
qed

lemma Split_no_sep: "sep \<notin> set s \<Longrightarrow> Split s sep = [s]"
  by (induction s) auto

lemma Split_name_part: "Split s sep ! 0 = takeWhile (\<lambda>c. c \<noteq> sep) s"
  using Split_not_Nil [of _ sep] by (induction s) (auto split: list.splits)

lemma Match_unfold:
  "Match check resp =
     (if \<not> passes_body check resp then Inr False
      else case (if Headers check \<noteq> []
                 then headers_loop (Header resp) (Headers check) else Inr True) of
        Inl e \<Rightarrow> Inl e
      | Inr ok \<Rightarrow>
          if \<not> ok then Inr False
          else if NoHeaders check \<noteq> []
          then no_headers_loop (Header resp) (NoHeaders check)
          else Inr True)"
  unfolding Match_def passes_body_def by (simp only: length_greater_0_conv de_Morgan_conj not_not if_not_P if_P split: if_splits) auto

lemma header_values_loop_total:
  "2 \<le> length p \<Longrightarrow> \<exists>b. header_values_loop v p vf = Inr b"
  by (induction v arbitrary: vf) auto

lemma headers_loop_total:
  "\<forall>h\<in>set hs. CHR '':'' \<in> set h \<Longrightarrow> \<exists>b. headers_loop hdr hs = Inr b"
proof (induction hs)
  case Nil
  show ?case by (rule exI [of _ True]) simp
next
  case (Cons h hs)
  then have len: "2 \<le> length (Split h CHR '':'')"
    by (simp add: length_Split_colon)
  from Cons obtain b where b: "headers_loop hdr hs = Inr b" by auto
  show ?case
  proof (cases "hdr (Split h CHR '':'' ! 0)")
    case None
    then have "headers_loop hdr (h # hs) = Inr False" by simp
    then show ?thesis by blast
  next
    case (Some v)
    from header_values_loop_total [OF len] obtain f where
      "header_values_loop v (Split h CHR '':'') False = Inr f" by blast
    with Some b have "headers_loop hdr (h # hs) = Inr (f \<and> b)"
      by (cases f) simp_all
    then show ?thesis by blast
  qed
qed

lemma no_headers_loop_eq:
  "no_headers_loop hdr hs = Inr (\<forall>h\<in>set hs. hdr (Split h CHR '':'' ! 0) = None)"
proof (induction hs)
  case Nil
  show ?case by simp
next
  case (Cons h hs)
  show ?case
  proof (cases "hdr (Split h CHR '':'' ! 0)")
    case None
    with Cons show ?thesis by (simp add: lookup_ok_def)
  next
    case (Some v)
    then show ?thesis by (simp add: lookup_ok_def)
  qed
qed

lemma headers_loop_panic:
  "CHR '':'' \<notin> set h \<Longrightarrow> hdr h = Some (v # vs) \<Longrightarrow>
   headers_loop hdr (h # rest) = Inl IndexOutOfRange"
  by (simp add: Split_no_sep)

lemma Match_total:
  assumes "\<forall>h\<in>set (Headers check). CHR '':'' \<in> set h"
  shows "\<exists>b. Match check resp = Inr b"
proof -
  from headers_loop_total [OF assms] obtain b where
    b: "headers_loop (Header resp) (Headers check) = Inr b" by blast
  have "Match check resp = Inr (passes_body check resp \<and> (Headers check \<noteq> [] \<longrightarrow> b) \<and>
          (\<forall>h\<in>set (NoHeaders check). Header resp (Split h CHR '':'' ! 0) = None))"
    by (cases "NoHeaders check") (simp_all add: Match_unfold b no_headers_loop_eq)
  then show ?thesis by blast
qed

lemma Match_forbidden_not_True:
  assumes "h \<in> set (NoHeaders check)" and "Header resp (Split h CHR '':'' ! 0) = Some v"
  shows "Match check resp \<noteq> Inr True"
proof -
  from assms have n: "NoHeaders check \<noteq> []"
    and f: "\<not> (\<forall>h\<in>set (NoHeaders check). Header resp (Split h CHR '':'' ! 0) = None)"
    by auto
  show ?thesis
  proof (cases "if Headers check \<noteq> [] then headers_loop (Header resp) (Headers check) else Inr True")
    case (Inl e)
    then show ?thesis by (simp add: Match_unfold)
  next
    case (Inr ok)
    then show ?thesis using n f by (simp add: Match_unfold no_headers_loop_eq)
  qed
qed

lemma Match_panic:
  assumes "passes_body check resp" "Headers check = h # rest" "CHR '':'' \<notin> set h"
    "Header resp h = Some (v # vs)"
  shows "Match check resp = Inl IndexOutOfRange"
  using assms by (simp add: Match_unfold headers_loop_panic del: headers_loop.simps)

text \<open>
  C8. A check with no condition configured (status code unset; the match-all, match-one,
  no-match, headers-required and headers-forbidden lists empty) matches every response:
  \<open>Match\<close> returns true.
\<close>

theorem Match_no_conditions:
  "StatusCode check = None \<Longrightarrow> MustMatchAll check = [] \<Longrightarrow> MustMatchOne check = [] \<Longrightarrow>
   MustNotMatch check = [] \<Longrightarrow> Headers check = [] \<Longrightarrow> NoHeaders check = [] \<Longrightarrow>
   Match check resp = Inr True"
  by (simp add: Match_def)

theorem Match_no_conditions_witness:
  "StatusCode (mk_check ''admin'' ''High'') = None \<and> MustMatchAll (mk_check ''admin'' ''High'') = [] \<and>
   MustMatchOne (mk_check ''admin'' ''High'') = [] \<and> MustNotMatch (mk_check ''admin'' ''High'') = [] \<and>
   Headers (mk_check ''admin'' ''High'') = [] \<and> NoHeaders (mk_check ''admin'' ''High'') = [] \<and>
   Match (mk_check ''admin'' ''High'') (mk_response [''Server'' \<mapsto> [''Apache'']]) = Inr True"
  using Match_no_conditions [of "mk_check ''admin'' ''High''" "mk_response [''Server'' \<mapsto> [''Apache'']]"]
  by (simp add: mk_check_def)

text \<open>
  C10. \<open>Match\<close> returns a boolean whenever every entry of the headers-required list
  holds a colon. The condition is needed: there are a check with an entry \<open>h\<close> without a
  colon and a response whose header map has the key \<open>h\<close> with at least one value, for
  which \<open>Match\<close> evaluates \<^verbatim>\<open>pHeaders[1]\<close> on a split of length 1 and panics.
\<close>

theorem Match_total_iff_colon:
  "((\<forall>h\<in>set (Headers check). CHR '':'' \<in> set h) \<longrightarrow> (\<exists>b. Match check resp = Inr b)) \<and>
   (\<exists>check' resp' h v vs.
      h \<in> set (Headers check') \<and> CHR '':'' \<notin> set h \<and> length (Split h CHR '':'') = 1 \<and>
      Header resp' h = Some (v # vs) \<and> Match check' resp' = Inl IndexOutOfRange)"
proof (intro conjI impI)
  assume "\<forall>h\<in>set (Headers check). CHR '':'' \<in> set h"
  then show "\<exists>b. Match check resp = Inr b" by (rule Match_total)
next
  let ?c = "(mk_check ''server'' ''Low'')\<lparr>Headers := [''Server'']\<rparr>"
  let ?r = "mk_response [''Server'' \<mapsto> [''Apache'']]"
  have "Match ?c ?r = Inl IndexOutOfRange"
    by (rule Match_panic [where h = "''Server''" and rest = "[]" and v = "''Apache''" and vs = "[]"])
       (simp_all add: passes_body_def mk_check_def mk_response_def)
  moreover have "''Server'' \<in> set (Headers ?c)" "CHR '':'' \<notin> set ''Server''"
    "length (Split ''Server'' CHR '':'') = 1" "Header ?r ''Server'' = Some [''Apache'']"
    by (simp_all add: mk_response_def)
  ultimately show "\<exists>check' resp' h v vs.
      h \<in> set (Headers check') \<and> CHR '':'' \<notin> set h \<and> length (Split h CHR '':'') = 1 \<and>
      Header resp' h = Some (v # vs) \<and> Match check' resp' = Inl IndexOutOfRange"
    by blast
qed

theorem Match_total_iff_colon_witness:
  "CHR '':'' \<in> set ''Server:Apache'' \<and>
   Match ((mk_check ''server'' ''Low'')\<lparr>Headers := [''Server:Apache'']\<rparr>)
         (mk_response [''Server'' \<mapsto> [''Apache'']]) = Inr True"
proof -
  have "Match ((mk_check ''server'' ''Low'')\<lparr>Headers := [''Server:Apache'']\<rparr>)
         (mk_response [''Server'' \<mapsto> [''Apache'']]) = Inr True"
    by (simp add: Match_def mk_check_def mk_response_def)
  with Match_total_iff_colon [of "(mk_check ''server'' ''Low'')\<lparr>Headers := [''Server:Apache'']\<rparr>"
          "mk_response [''Server'' \<mapsto> [''Apache'']]"]
  show ?thesis by simp
qed

text \<open>
  C1. For a check with a headers-forbidden entry whose name part (the text before its
  first colon) is a key of the response's header map, whatever the values of that
  header are: \<open>Match\<close> returns false when the entries of the headers-required list
  have the format \<^verbatim>\<open>name:substring\<close> (each holds a colon), and without that
  condition it still never returns true.
\<close>

theorem Match_forbidden_header_present:
  assumes "h \<in> set (NoHeaders check)" and "Header resp (Split h CHR '':'' ! 0) = Some v"
  shows "Match check resp \<noteq> Inr True \<and>
         ((\<forall>e\<in>set (Headers check). CHR '':'' \<in> set e) \<longrightarrow> Match check resp = Inr False)"
proof -
  have nt: "Match check resp \<noteq> Inr True"
    using assms by (rule Match_forbidden_not_True)
  moreover have "Match check resp = Inr False"
    if "\<forall>e\<in>set (Headers check). CHR '':'' \<in> set e"
  proof -
    from Match_total [OF that] obtain b where "Match check resp = Inr b" by blast
    with nt show ?thesis by (cases b) auto
  qed
  ultimately show ?thesis by blast
qed

theorem Match_forbidden_header_present_witness:
  "''X-Frame-Options:deny'' \<in> set (NoHeaders ((mk_check ''frame'' ''Low'')
       \<lparr>Headers := [''Server:Apache''], NoHeaders := [''X-Frame-Options:deny'']\<rparr>)) \<and>
   Header (mk_response [''Server'' \<mapsto> [''Apache''], ''X-Frame-Options'' \<mapsto> [''sameorigin'']])
     (Split ''X-Frame-Options:deny'' CHR '':'' ! 0) = Some [''sameorigin''] \<and>
   CHR '':'' \<in> set ''Server:Apache'' \<and>
   Match ((mk_check ''frame'' ''Low'')
            \<lparr>Headers := [''Server:Apache''], NoHeaders := [''X-Frame-Options:deny'']\<rparr>)
         (mk_response [''Server'' \<mapsto> [''Apache''], ''X-Frame-Options'' \<mapsto> [''sameorigin'']])
     = Inr False"
  using Match_forbidden_header_present [of "''X-Frame-Options:deny''"
     "(mk_check ''frame'' ''Low'')
        \<lparr>Headers := [''Server:Apache''], NoHeaders := [''X-Frame-Options:deny'']\<rparr>"
     "mk_response [''Server'' \<mapsto> [''Apache''], ''X-Frame-Options'' \<mapsto> [''sameorigin'']]"
     "[''sameorigin'']"]
  by (simp add: mk_response_def)

section \<open>Properties of the scan\<close>

lemma BlockCI_reaches: "BlockCI threshold observed = reaches_threshold threshold observed"
  by (simp add: BlockCI_def reaches_threshold_def severity_rank_def High_def Medium_def Low_def Informational_def)

lemma checks_loop_inv:
  "checks_ok cs \<Longrightarrow> flags_inv (blockedFlag fl) st \<Longrightarrow>
   \<exists>st'. checks_loop pk fl domain plugin resp cs st = Inr st' \<and> flags_inv (blockedFlag fl) st'"
proof (induction cs arbitrary: st)
  case Nil
  then show ?case by simp
next
  case (Cons c cs)
  from Cons.prems obtain sev rem where
    c: "data_Severity c = Some sev" "data_Remediation c = Some rem" and cs: "checks_ok cs"
    by (auto simp: checks_ok_def)
  show ?case
  proof (cases "ResponseAnalysis pk resp c")
    case False
    with Cons.IH [OF cs Cons.prems(2)] show ?thesis by simp
  next
    case True
    let ?h = "\<lparr>Domain = domain, out_PluginName = PluginName c, TestedURL = URI plugin,
               out_Severity = sev, out_Remediation = rem\<rparr>"
    let ?st = "st\<lparr>hit := True, block := (block st \<or> BlockCI (blockedFlag fl) sev),
                  out := out st @ [?h]\<rparr>"
    have "flags_inv (blockedFlag fl) ?st"
      using Cons.prems(2) by (auto simp: flags_inv_def)
    from Cons.IH [OF cs this] obtain st' where
      "checks_loop pk fl domain plugin resp cs ?st = Inr st'" "flags_inv (blockedFlag fl) st'"
      by blast
    moreover have "checks_loop pk fl domain plugin resp (c # cs) st
                 = checks_loop pk fl domain plugin resp cs ?st"
      using True c by (cases "BlockCI (blockedFlag fl) sev") (simp_all add: Let_def)
    ultimately show ?thesis by simp
  qed
qed

lemma plugins_loop_inv:
  "\<forall>p\<in>set ps. checks_ok (data_Checks p) \<Longrightarrow> flags_inv (blockedFlag fl) st \<Longrightarrow>
   \<exists>st'. plugins_loop pk fl insec domain ps st = Inr st' \<and> flags_inv (blockedFlag fl) st'"
proof (induction ps arbitrary: st)
  case Nil
  then show ?case by simp
next
  case (Cons p ps)
  let ?u = "prefix_flag fl @ domain @ suffix_flag fl @ URI p"
  let ?url = "if data_QueryString p \<noteq> [] then ?u @ ''?'' @ data_QueryString p else ?u"
  let ?st1 = "st\<lparr>requests := requests st @ [?url]\<rparr>"
  have inv1: "flags_inv (blockedFlag fl) ?st1"
    using Cons.prems(2) by (simp add: flags_inv_def)
  from Cons.prems(1) have ok: "checks_ok (data_Checks p)" and rest: "\<forall>q\<in>set ps. checks_ok (data_Checks q)"
    by simp_all
  show ?case
  proof (cases "HTTPGet pk (requests st) insec ?url
                  (if data_FollowRedirects p \<noteq> None \<and> data_FollowRedirects p = Some False
                   then False else True) (httpRequestTimeout fl)")
    case None
    with Cons.IH [OF rest inv1] show ?thesis by (simp add: Let_def)
  next
    case (Some resp)
    from checks_loop_inv [OF ok inv1, where pk=pk and domain=domain and plugin=p and resp=resp] obtain st2 where
      st2: "checks_loop pk fl domain p resp (data_Checks p) ?st1 = Inr st2"
           "flags_inv (blockedFlag fl) st2" by blast
    from Cons.IH [OF rest st2(2)] Some st2(1) show ?thesis by (simp add: Let_def)
  qed
qed

lemma domains_loop_inv:
  "\<forall>p\<in>set (cfg_Plugins y). checks_ok (data_Checks p) \<Longrightarrow> flags_inv (blockedFlag fl) st \<Longrightarrow>
   \<exists>st'. domains_loop pk fl insec y ds st = Inr st' \<and> flags_inv (blockedFlag fl) st'"
proof (induction ds arbitrary: st)
  case Nil
  then show ?case by simp
next
  case (Cons d ds)
  from plugins_loop_inv [OF Cons.prems] obtain st1 where
    "plugins_loop pk fl insec d (cfg_Plugins y) st = Inr st1" "flags_inv (blockedFlag fl) st1"
    by blast
  with Cons.IH [OF Cons.prems(1)] show ?case by simp
qed

lemma check_fields_None:
  "check_fields c = None \<longleftrightarrow>
     data_Description c \<noteq> None \<and> data_Remediation c \<noteq> None \<and>
     (\<exists>sev. data_Severity c = Some sev \<and> IsValid sev)"
  by (auto simp: check_fields_def split: option.splits)

lemma fields_checks_loop_None:
  "fields_checks_loop cs = None \<longleftrightarrow> (\<forall>c\<in>set cs. check_fields c = None)"
  by (induction cs) (auto split: option.splits)

lemma fields_plugins_loop_None:
  "fields_plugins_loop ps = None \<longleftrightarrow> (\<forall>p\<in>set ps. \<forall>c\<in>set (data_Checks p). check_fields c = None)"
  by (induction ps) (auto simp: fields_checks_loop_None [symmetric] split: option.splits)

lemma CheckStructFields_None:
  "CheckStructFields y = None \<longleftrightarrow>
     (\<forall>p\<in>set (cfg_Plugins y). \<forall>c\<in>set (data_Checks p). check_fields c = None)"
  by (simp add: CheckStructFields_def fields_plugins_loop_None)

lemma validated_checks_ok:
  "CheckStructFields y = None \<Longrightarrow> \<forall>p\<in>set (cfg_Plugins y). checks_ok (data_Checks p)"
  by (auto simp: CheckStructFields_None check_fields_None checks_ok_def)

lemma scan_run_inv:
  assumes "CheckStructFields y = None"
  shows "\<exists>st. scan_run pk fl urlFileLines y = Inr st \<and> flags_inv (blockedFlag fl) st"
  unfolding scan_run_def Let_def
  by (rule domains_loop_inv [OF validated_checks_ok [OF assms]]) (simp add: flags_inv_def)

lemma Contains_sublist: "Contains s sub = sublist sub s"
  by (induction s) (auto simp: sublist_Cons_right)

lemma Contains_middle: "Contains (a @ b @ c) b"
  by (simp add: Contains_sublist sublist_def) blast

lemma BlockCI_examples:
  "\<not> BlockCI ''Medium'' Low" "\<not> BlockCI ''Medium'' Informational" "BlockCI ''Medium'' Medium"
  "BlockCI ''Medium'' High" "\<not> BlockCI '''' High"
  by (simp_all add: BlockCI_def High_def Medium_def Low_def Informational_def)

lemma Scan_fatal_before_requests:
  "CheckStructFields y = Some msg \<Longrightarrow> Scan pk fl urlFileLines y = (Fatal msg, [])"
  by (simp add: Scan_def)

lemma CheckStructFields_passes_iff:
  "CheckStructFields y = None \<longleftrightarrow>
     (\<forall>p\<in>set (cfg_Plugins y). \<forall>c\<in>set (data_Checks p).
        data_Description c \<noteq> None \<and> data_Remediation c \<noteq> None \<and>
        (\<exists>sev. data_Severity c = Some sev \<and> IsValid sev))"
  by (simp add: CheckStructFields_None check_fields_None)

lemma missing_field_message:
  assumes "data_Description c = None \<or> data_Remediation c = None \<or> data_Severity c = None"
  shows "\<exists>msg. check_fields c = Some msg \<and> Contains msg (PluginName c)"
proof -
  have "\<exists>field. check_fields c =
          Some (field @ PluginName c @ '' plugin checks. Stopping execution.'')"
  proof (cases "data_Description c = None")
    case True
    then have "check_fields c = Some (''Missing description field in '' @ PluginName c
                 @ '' plugin checks. Stopping execution.'')"
      by (simp add: check_fields_def del: append.simps)
    then show ?thesis by blast
  next
    case d: False
    show ?thesis
    proof (cases "data_Remediation c = None")
      case True
      with d have "check_fields c = Some (''Missing remediation field in '' @ PluginName c
                 @ '' plugin checks. Stopping execution.'')"
        by (simp add: check_fields_def del: append.simps)
      then show ?thesis by blast
    next
      case False
      with d assms have "data_Severity c = None" by auto
      with d False have "check_fields c = Some (''Missing severity field in '' @ PluginName c
                 @ '' plugin checks. Stopping execution.'')"
        by (simp add: check_fields_def del: append.simps)
      then show ?thesis by blast
    qed
  qed
  then obtain field where
    "check_fields c = Some (field @ PluginName c @ '' plugin checks. Stopping execution.'')"
    by blast
  with Contains_middle [of field "PluginName c" "'' plugin checks. Stopping execution.''"]
  show ?thesis by blast
qed

lemma unknown_severity_message:
  assumes "data_Description c \<noteq> None" "data_Remediation c \<noteq> None"
    "data_Severity c = Some sev" "\<not> IsValid sev"
  shows "check_fields c = Some ('' ------ Unknown severity type : '' @ sev
           @ '' . Only Informational / Low / Medium / High are valid severity types.'')"
  using assms by (simp add: check_fields_def)

text \<open>
  C2. \<open>BlockCI\<close> is a function of the threshold string and the observed severity
  alone. It returns true exactly when both are levels of the scale
  Informational < Low < Medium < High and the observed severity is at or above the
  threshold; the threshold has a rank exactly when it is one of the four level names;
  for the empty threshold it returns false.
\<close>

theorem BlockCI_threshold:
  "BlockCI threshold observed =
     (\<exists>t s. severity_rank threshold = Some t \<and> severity_rank observed = Some s \<and> t \<le> s) \<and>
   (severity_rank threshold \<noteq> None) =
     (threshold = ''Informational'' \<or> threshold = ''Low'' \<or> threshold = ''Medium''
      \<or> threshold = ''High'') \<and>
   \<not> BlockCI [] observed"
  by (auto simp: BlockCI_reaches reaches_threshold_def severity_rank_def
        split: option.splits if_splits)

text \<open>
  C3. For a configuration that passed validation, the scan runs to its exit decision,
  and the process exits with a status other than zero exactly when at least one hit was
  produced and either the blocking threshold flag is empty or the severity of some hit
  reached the threshold; otherwise (no hit, or hits none of which reached a configured
  threshold) it exits with status zero.
\<close>

theorem Scan_exit_decision:
  assumes "CheckStructFields y = None"
  shows "\<exists>st. scan_run pk fl urlFileLines y = Inr st \<and>
           fst (Scan pk fl urlFileLines y) = exit_decision (blockedFlag fl) st \<and>
           (exit_status (fst (Scan pk fl urlFileLines y)) \<noteq> 0) =
             (out st \<noteq> [] \<and>
              (blockedFlag fl = [] \<or>
               (\<exists>h\<in>set (out st). reaches_threshold (blockedFlag fl) (out_Severity h)))) \<and>
           (exit_status (fst (Scan pk fl urlFileLines y)) = 0 \<or>
            exit_status (fst (Scan pk fl urlFileLines y)) = 1)"
proof -
  from scan_run_inv [OF assms] obtain st where
    st: "scan_run pk fl urlFileLines y = Inr st" and inv: "flags_inv (blockedFlag fl) st"
    by blast
  have S: "fst (Scan pk fl urlFileLines y) = exit_decision (blockedFlag fl) st"
    using assms st by (simp add: Scan_def)
  have "(exit_status (exit_decision (blockedFlag fl) st) \<noteq> 0) =
          (out st \<noteq> [] \<and>
           (blockedFlag fl = [] \<or>
            (\<exists>h\<in>set (out st). reaches_threshold (blockedFlag fl) (out_Severity h))))"
    using inv by (auto simp: flags_inv_def exit_decision_def BlockCI_reaches)
  moreover have "exit_status (exit_decision (blockedFlag fl) st) = 0 \<or>
                 exit_status (exit_decision (blockedFlag fl) st) = 1"
    by (simp add: exit_decision_def)
  ultimately show ?thesis using st S by auto
qed

theorem Scan_exit_decision_witness:
  "CheckStructFields (mk_config [mk_data_check ''Jenkins'' ''Low'']) = None \<and>
   exit_status (fst (Scan ex_pkg (ex_flags ''Medium'') []
                       (mk_config [mk_data_check ''Jenkins'' ''Low'']))) = 0 \<and>
   exit_status (fst (Scan ex_pkg (ex_flags ''Low'') []
                       (mk_config [mk_data_check ''Jenkins'' ''Low'']))) = 1"
proof -
  have v: "CheckStructFields (mk_config [mk_data_check ''Jenkins'' ''Low'']) = None"
    by (simp add: CheckStructFields_def mk_config_def mk_data_check_def check_fields_def
          IsValid_def Low_def High_def Medium_def Informational_def)
  have r: "scan_run ex_pkg (ex_flags b) [] (mk_config [mk_data_check ''Jenkins'' ''Low'']) =
        Inr \<lparr>hit = True, block = BlockCI b ''Low'',
             out = [\<lparr>Domain = ''example.org'', out_PluginName = ''Jenkins'',
                     TestedURL = ''/admin'', out_Severity = ''Low'',
                     out_Remediation = ''fix it''\<rparr>],
             requests = [''https://example.org/admin'']\<rparr>" for b
    by (simp add: scan_run_def ex_pkg_def ex_flags_def mk_config_def mk_data_check_def Let_def)
  have bf: "blockedFlag (ex_flags b) = b" for b
    by (simp add: ex_flags_def)
  have e1: "exit_status (fst (Scan ex_pkg (ex_flags ''Medium'') []
                       (mk_config [mk_data_check ''Jenkins'' ''Low'']))) = 0"
    by (simp add: Scan_def v r bf exit_decision_def BlockCI_def Low_def High_def Medium_def)
  have e2: "exit_status (fst (Scan ex_pkg (ex_flags ''Low'') []
                       (mk_config [mk_data_check ''Jenkins'' ''Low'']))) = 1"
    by (simp add: Scan_def v r bf exit_decision_def BlockCI_def Low_def High_def Medium_def)
  from Scan_exit_decision [OF v, of ex_pkg "ex_flags ''Medium''" "[]"] v e1 e2
  show ?thesis by blast
qed

text \<open>
  C9. A check whose severity is not one of the four levels stops the run in
  \<open>CheckStructFields\<close>, before any request; but the message of this case gives the
  severity string only, where the three messages for a missing field name the plugin of
  the check. For a plugin called ``Jenkins'' with the severity ``Critical'' the message
  does not hold ``Jenkins''.
\<close>

theorem CheckStructFields_unknown_severity:
  "CheckStructFields (mk_config [mk_data_check ''Jenkins'' ''Critical'']) =
     Some '' ------ Unknown severity type : Critical . Only Informational / Low / Medium / High are valid severity types.'' \<and>
   \<not> Contains '' ------ Unknown severity type : Critical . Only Informational / Low / Medium / High are valid severity types.''
        ''Jenkins'' \<and>
   Scan ex_pkg (ex_flags ''Medium'') [] (mk_config [mk_data_check ''Jenkins'' ''Critical'']) =
     (Fatal '' ------ Unknown severity type : Critical . Only Informational / Low / Medium / High are valid severity types.'', [])"
proof -
  have c: "CheckStructFields (mk_config [mk_data_check ''Jenkins'' ''Critical'']) =
     Some '' ------ Unknown severity type : Critical . Only Informational / Low / Medium / High are valid severity types.''"
    by (simp add: CheckStructFields_def mk_config_def mk_data_check_def check_fields_def
          IsValid_def Low_def High_def Medium_def Informational_def)
  moreover have "\<not> Contains '' ------ Unknown severity type : Critical . Only Informational / Low / Medium / High are valid severity types.''
        ''Jenkins''"
    by simp
  ultimately show ?thesis
    by (simp add: Scan_fatal_before_requests)
qed

section \<open>Properties of the filters\<close>

lemma overwrite_Nil [simp]: "overwrite xs k [] = xs"
  by (simp add: overwrite_def)

lemma length_overwrite [simp]: "k + length ys \<le> length xs \<Longrightarrow> length (overwrite xs k ys) = length xs"
  by (simp add: overwrite_def)

lemma overwrite_update:
  "k < length xs \<Longrightarrow> overwrite (xs[k := x]) (Suc k) ys = overwrite xs k (x # ys)"
  by (simp add: overwrite_def take_Suc_conv_app_nth)

lemma store_check_arrays_triv [simp]:
  "h\<lparr>check_arrays := (check_arrays h)(a := check_arrays h a)\<rparr> = h"
  by simp

lemma ref_keeps_cong: "check_objs h' = check_objs h \<Longrightarrow> ref_keeps keep h' = ref_keeps keep h"
  by (rule ext) (simp add: ref_keeps_def split: option.splits)

lemma filter_checks_loop_inplace:
  assumes "ptr fc = ptr cs" "cap fc = cap cs" "len fc \<le> i" "i \<le> len cs" "len cs \<le> cap cs"
    "cap cs \<le> length (check_arrays h (ptr cs))" "None \<notin> set (drop i (check_refs h cs))"
  shows "filter_checks_loop keep cs i h fc =
           Inr (h\<lparr>check_arrays := (check_arrays h)
                   (ptr cs := overwrite (check_arrays h (ptr cs)) (len fc)
                      (filter (ref_keeps keep h) (drop i (check_refs h cs))))\<rparr>,
                fc\<lparr>len := len fc + length (filter (ref_keeps keep h) (drop i (check_refs h cs)))\<rparr>)"
  using assms
proof (induction "len cs - i" arbitrary: i h fc)
  case 0
  then have "i = len cs" by simp
  then show ?case
    by (subst filter_checks_loop.simps) (simp add: check_refs_def)
next
  case (Suc n)
  let ?A = "check_arrays h (ptr cs)"
  from Suc.hyps(2) have i: "i < len cs" by simp
  with Suc.prems have iA: "i < length ?A" by simp
  have "i < length (check_refs h cs)"
    using i iA by (simp add: check_refs_def)
  from Cons_nth_drop_Suc [OF this, symmetric]
  have dr: "drop i (check_refs h cs) = ?A ! i # drop (Suc i) (check_refs h cs)"
    using i by (simp add: check_refs_def)
  with Suc.prems(7) obtain c where c: "?A ! i = Some c" by (cases "?A ! i") auto
  have nn: "None \<notin> set (drop (Suc i) (check_refs h cs))"
    using Suc.prems(7) dr by simp
  show ?case
  proof (cases "keep (check_objs h c)")
    case False
    have "filter_checks_loop keep cs i h fc = filter_checks_loop keep cs (Suc i) h fc"
      using i c False by (simp add: filter_checks_loop.simps [of keep cs i])
    also have "\<dots> = Inr (h\<lparr>check_arrays := (check_arrays h)
                   (ptr cs := overwrite ?A (len fc)
                      (filter (ref_keeps keep h) (drop (Suc i) (check_refs h cs))))\<rparr>,
                fc\<lparr>len := len fc + length (filter (ref_keeps keep h) (drop (Suc i) (check_refs h cs)))\<rparr>)"
      using Suc.hyps(2) Suc.prems i nn by (intro Suc.hyps(1)) auto
    finally show ?thesis
      using False c by (simp add: dr ref_keeps_def)
  next
    case True
    let ?k = "len fc"
    let ?h1 = "h\<lparr>check_arrays := (check_arrays h)(ptr cs := ?A[?k := Some c])\<rparr>"
    let ?fc1 = "fc\<lparr>len := Suc ?k\<rparr>"
    have k: "?k < cap fc" "?k < length ?A" using Suc.prems i by auto
    have app: "append_check h fc (Some c) = (?h1, ?fc1)"
      using k Suc.prems(1) by (simp add: append_check_def)
    have refs1: "drop (Suc i) (check_refs ?h1 cs) = drop (Suc i) (check_refs h cs)"
      using Suc.prems(3) by (simp add: check_refs_def take_update_swap)
    have keeps1: "ref_keeps keep ?h1 = ref_keeps keep h"
      by (rule ref_keeps_cong) simp
    have "filter_checks_loop keep cs i h fc = filter_checks_loop keep cs (Suc i) ?h1 ?fc1"
      using i c True app by (simp add: filter_checks_loop.simps [of keep cs i])
    also have "\<dots> = Inr (?h1\<lparr>check_arrays := (check_arrays ?h1)
                   (ptr cs := overwrite (check_arrays ?h1 (ptr cs)) (len ?fc1)
                      (filter (ref_keeps keep ?h1) (drop (Suc i) (check_refs ?h1 cs))))\<rparr>,
                ?fc1\<lparr>len := len ?fc1 + length (filter (ref_keeps keep ?h1) (drop (Suc i) (check_refs ?h1 cs)))\<rparr>)"
      using Suc.hyps(2) Suc.prems i nn refs1 by (intro Suc.hyps(1)) auto
    finally show ?thesis
      using True c k by (simp add: dr refs1 keeps1 ref_keeps_def overwrite_update)
  qed
qed

lemma filter_checks_whole:
  assumes "slice_ok h cs"
  shows "filter_checks_loop keep cs 0 h (cs\<lparr>len := 0\<rparr>) =
           Inr (h\<lparr>check_arrays := (check_arrays h)
                   (ptr cs := overwrite (check_arrays h (ptr cs)) 0
                      (filter (ref_keeps keep h) (check_refs h cs)))\<rparr>,
                cs\<lparr>len := length (filter (ref_keeps keep h) (check_refs h cs))\<rparr>)"
  using assms filter_checks_loop_inplace [of "cs\<lparr>len := 0\<rparr>" cs 0 h keep]
  by (simp add: slice_ok_def)

lemma filter_plugins_loop_unfold:
  assumes "i < len ps" "plugin_arrays h (ptr ps) ! i = Some p"
    "slice_ok h (Checks (plugin_objs h p))" "len fp < cap fp"
  shows "filter_plugins_loop keep ps i h fp =
           (if kept_checks keep h (Some p) = [] then filter_plugins_loop keep ps (Suc i) h fp
            else filter_plugins_loop keep ps (Suc i)
                   ((commit_plugin keep h p)\<lparr>plugin_arrays := (plugin_arrays h)
                       (ptr fp := (plugin_arrays h (ptr fp))[len fp := Some p])\<rparr>)
                   (fp\<lparr>len := Suc (len fp)\<rparr>))"
  using assms
  by (subst filter_plugins_loop.simps)
     (simp add: filter_checks_whole kept_checks_def checks_slice_def commit_plugin_def
        append_plugin_def Let_def)

lemma plugins_ok_Cons:
  "plugins_ok h (Some p # rs) \<longleftrightarrow>
     slice_ok h (Checks (plugin_objs h p)) \<and> Some p \<notin> set rs \<and> plugins_ok h rs \<and>
     (0 < len (Checks (plugin_objs h p)) \<longrightarrow>
        (\<forall>q. Some q \<in> set rs \<longrightarrow> len (Checks (plugin_objs h q)) = 0
                \<or> ptr (Checks (plugin_objs h q)) \<noteq> ptr (Checks (plugin_objs h p))))"
proof -
  have *: "(\<forall>r\<in>set rs. 0 < len (checks_slice h r) \<longrightarrow> ptr (checks_slice h r) \<noteq> a) \<longleftrightarrow>
        (\<forall>q. Some q \<in> set rs \<longrightarrow> len (Checks (plugin_objs h q)) = 0 \<or> ptr (Checks (plugin_objs h q)) \<noteq> a)"
    if "None \<notin> set rs" for a
  proof
    assume L: "\<forall>r\<in>set rs. 0 < len (checks_slice h r) \<longrightarrow> ptr (checks_slice h r) \<noteq> a"
    show "\<forall>q. Some q \<in> set rs \<longrightarrow> len (Checks (plugin_objs h q)) = 0 \<or> ptr (Checks (plugin_objs h q)) \<noteq> a"
    proof (intro allI impI)
      fix q assume "Some q \<in> set rs"
      with L have "0 < len (checks_slice h (Some q)) \<longrightarrow> ptr (checks_slice h (Some q)) \<noteq> a" by blast
      then show "len (Checks (plugin_objs h q)) = 0 \<or> ptr (Checks (plugin_objs h q)) \<noteq> a"
        by (auto simp: checks_slice_def)
    qed
  next
    assume R: "\<forall>q. Some q \<in> set rs \<longrightarrow> len (Checks (plugin_objs h q)) = 0 \<or> ptr (Checks (plugin_objs h q)) \<noteq> a"
    show "\<forall>r\<in>set rs. 0 < len (checks_slice h r) \<longrightarrow> ptr (checks_slice h r) \<noteq> a"
    proof (intro ballI impI)
      fix r assume r: "r \<in> set rs" "0 < len (checks_slice h r)"
      with that obtain q where "r = Some q" by (cases r) auto
      with r R show "ptr (checks_slice h r) \<noteq> a" by (auto simp: checks_slice_def)
    qed
  qed
  have img: "(a \<notin> (\<lambda>r. ptr (checks_slice h r)) ` set (filter (\<lambda>r. 0 < len (checks_slice h r)) rs)) \<longleftrightarrow>
        (\<forall>q. Some q \<in> set rs \<longrightarrow> len (Checks (plugin_objs h q)) = 0 \<or> ptr (Checks (plugin_objs h q)) \<noteq> a)"
    if "None \<notin> set rs" for a
    using * [OF that, of a] by auto
  have sl: "checks_slice h (Some p) = Checks (plugin_objs h p)"
    by (simp add: checks_slice_def)
  show ?thesis
  proof (cases "None \<in> set rs")
    case True
    then show ?thesis by (auto simp: plugins_ok_def)
  next
    case False
    show ?thesis
      unfolding plugins_ok_def
      using False
      by (simp add: sl img [OF False] del: set_filter) blast
  qed
qed

lemma stores_agree:
  assumes objs: "\<forall>q. Some q \<in> set rs \<longrightarrow> plugin_objs h' q = plugin_objs h q"
    and refs: "\<forall>q. Some q \<in> set rs \<longrightarrow>
                 check_refs h' (Checks (plugin_objs h q)) = check_refs h (Checks (plugin_objs h q))"
    and chk: "check_objs h' = check_objs h"
    and lens: "\<forall>a. length (check_arrays h' a) = length (check_arrays h a)"
    and nn: "None \<notin> set rs"
  shows "plugins_ok h' rs = plugins_ok h rs"
    and "\<forall>q. Some q \<in> set rs \<longrightarrow> kept_checks keep h' (Some q) = kept_checks keep h (Some q)"
    and "filter (plugin_kept keep h') rs = filter (plugin_kept keep h) rs"
proof -
  have sl: "checks_slice h' r = checks_slice h r" if "r \<in> set rs" for r
  proof (cases r)
    case None
    with that nn show ?thesis by simp
  next
    case (Some q)
    with that objs show ?thesis by (simp add: checks_slice_def)
  qed
  have rf: "check_refs h' (checks_slice h r) = check_refs h (checks_slice h r)" if "r \<in> set rs" for r
  proof (cases r)
    case None
    with that nn show ?thesis by simp
  next
    case (Some q)
    with that refs show ?thesis by (simp add: checks_slice_def)
  qed
  have ok: "slice_ok h' (checks_slice h' r) = slice_ok h (checks_slice h r)" if "r \<in> set rs" for r
    using sl [OF that] rf [OF that] lens by (simp add: slice_ok_def)
  have kp: "kept_checks keep h' r = kept_checks keep h r" if "r \<in> set rs" for r
    using sl [OF that] rf [OF that] ref_keeps_cong [OF chk, of keep] by (simp add: kept_checks_def)
  have f1: "filter (\<lambda>r. 0 < len (checks_slice h' r)) rs = filter (\<lambda>r. 0 < len (checks_slice h r)) rs"
    by (rule filter_cong) (simp_all add: sl)
  have f2: "map (\<lambda>r. ptr (checks_slice h' r)) (filter (\<lambda>r. 0 < len (checks_slice h r)) rs)
          = map (\<lambda>r. ptr (checks_slice h r)) (filter (\<lambda>r. 0 < len (checks_slice h r)) rs)"
    by (rule map_cong) (simp_all add: sl)
  have f3: "list_all (\<lambda>r. slice_ok h' (checks_slice h' r)) rs = list_all (\<lambda>r. slice_ok h (checks_slice h r)) rs"
    by (simp add: list_all_iff ok)
  show "plugins_ok h' rs = plugins_ok h rs"
    by (simp add: plugins_ok_def f1 f2 f3)
  show "\<forall>q. Some q \<in> set rs \<longrightarrow> kept_checks keep h' (Some q) = kept_checks keep h (Some q)"
    using kp by blast
  show "filter (plugin_kept keep h') rs = filter (plugin_kept keep h) rs"
    by (rule filter_cong) (simp_all add: plugin_kept_def kp)
qed

lemma kept_checks_nonempty_len:
  "kept_checks keep h (Some p) \<noteq> [] \<Longrightarrow> 0 < len (Checks (plugin_objs h p))"
  by (cases "len (Checks (plugin_objs h p)) = 0")
     (auto simp: kept_checks_def checks_slice_def check_refs_def)

lemma length_kept_checks_le:
  "slice_ok h (Checks (plugin_objs h p)) \<Longrightarrow>
   length (kept_checks keep h (Some p)) \<le> length (check_arrays h (ptr (Checks (plugin_objs h p))))"
proof -
  assume "slice_ok h (Checks (plugin_objs h p))"
  then have "length (check_refs h (Checks (plugin_objs h p))) \<le> length (check_arrays h (ptr (Checks (plugin_objs h p))))"
    by (simp add: check_refs_def)
  moreover have "length (kept_checks keep h (Some p)) \<le> length (check_refs h (Checks (plugin_objs h p)))"
    by (simp add: kept_checks_def checks_slice_def)
  ultimately show ?thesis by linarith
qed

lemma commit_plugin_agree:
  assumes ok: "plugins_ok h (Some p # rs)" and kept: "kept_checks keep h (Some p) \<noteq> []"
    and h3_def: "h3 = (commit_plugin keep h p)\<lparr>plugin_arrays := X\<rparr>"
  shows "\<forall>q. Some q \<in> set rs \<longrightarrow> plugin_objs h3 q = plugin_objs h q"
    and "\<forall>q. Some q \<in> set rs \<longrightarrow>
           check_refs h3 (Checks (plugin_objs h q)) = check_refs h (Checks (plugin_objs h q))"
    and "check_objs h3 = check_objs h"
    and "\<forall>a. length (check_arrays h3 a) = length (check_arrays h a)"
proof -
  from ok have sp: "slice_ok h (Checks (plugin_objs h p))" and np: "Some p \<notin> set rs"
    and own: "\<forall>q. Some q \<in> set rs \<longrightarrow> len (Checks (plugin_objs h q)) = 0
                \<or> ptr (Checks (plugin_objs h q)) \<noteq> ptr (Checks (plugin_objs h p))"
    using kept_checks_nonempty_len [OF kept] by (simp_all add: plugins_ok_Cons)
  show "\<forall>q. Some q \<in> set rs \<longrightarrow> plugin_objs h3 q = plugin_objs h q"
    using np by (auto simp: h3_def commit_plugin_def Let_def)
  show "\<forall>q. Some q \<in> set rs \<longrightarrow>
           check_refs h3 (Checks (plugin_objs h q)) = check_refs h (Checks (plugin_objs h q))"
    using own by (auto simp: h3_def commit_plugin_def Let_def check_refs_def)
  show "check_objs h3 = check_objs h"
    by (simp add: h3_def commit_plugin_def Let_def)
  show "\<forall>a. length (check_arrays h3 a) = length (check_arrays h a)"
    using length_kept_checks_le [OF sp, of keep]
    by (simp add: h3_def commit_plugin_def Let_def)
qed

lemma filter_effect_Nil: "filter_effect keep [] h h"
  by (simp add: filter_effect_def)

lemma filter_effect_Cons_dropped:
  assumes eff: "filter_effect keep rs h h'"
    and drp: "\<not> plugin_kept keep h (Some p)"
    and np: "Some p \<notin> set rs"
    and own: "0 < len (Checks (plugin_objs h p)) \<longrightarrow>
        (\<forall>q. Some q \<in> set rs \<longrightarrow> len (Checks (plugin_objs h q)) = 0
                \<or> ptr (Checks (plugin_objs h q)) \<noteq> ptr (Checks (plugin_objs h p)))"
  shows "filter_effect keep (Some p # rs) h h'"
proof -
  from eff have
    e1: "check_objs h' = check_objs h" "next_free h' = next_free h" and
    e3: "\<And>q. plugin_objs h' q =
         (if Some q \<in> set rs \<and> plugin_kept keep h (Some q)
          then (plugin_objs h q)\<lparr>Checks := (Checks (plugin_objs h q))
                  \<lparr>len := length (kept_checks keep h (Some q))\<rparr>\<rparr>
          else plugin_objs h q)" and
    e4: "\<And>a. (\<forall>q. Some q \<in> set rs \<longrightarrow>
               len (Checks (plugin_objs h q)) = 0 \<or> ptr (Checks (plugin_objs h q)) \<noteq> a) \<Longrightarrow>
           check_arrays h' a = check_arrays h a" and
    e5: "\<And>q. Some q \<in> set rs \<Longrightarrow> 0 < len (Checks (plugin_objs h q)) \<Longrightarrow>
           check_arrays h' (ptr (Checks (plugin_objs h q))) =
             overwrite (check_arrays h (ptr (Checks (plugin_objs h q)))) 0
               (kept_checks keep h (Some q))"
    by (simp_all add: filter_effect_def)
  have g3: "plugin_objs h' q =
         (if Some q \<in> set (Some p # rs) \<and> plugin_kept keep h (Some q)
          then (plugin_objs h q)\<lparr>Checks := (Checks (plugin_objs h q))
                  \<lparr>len := length (kept_checks keep h (Some q))\<rparr>\<rparr>
          else plugin_objs h q)" for q
    using e3 [of q] drp by (cases "q = p") auto
  have g4: "check_arrays h' a = check_arrays h a"
    if "\<forall>q. Some q \<in> set (Some p # rs) \<longrightarrow>
               len (Checks (plugin_objs h q)) = 0 \<or> ptr (Checks (plugin_objs h q)) \<noteq> a" for a
    using that by (intro e4) auto
  have g5: "check_arrays h' (ptr (Checks (plugin_objs h q))) =
             overwrite (check_arrays h (ptr (Checks (plugin_objs h q)))) 0
               (kept_checks keep h (Some q))"
    if "Some q \<in> set (Some p # rs)" "0 < len (Checks (plugin_objs h q))" for q
  proof (cases "q = p")
    case False
    with that show ?thesis by (intro e5) auto
  next
    case True
    from drp have "kept_checks keep h (Some p) = []" by (simp add: plugin_kept_def)
    moreover have "check_arrays h' (ptr (Checks (plugin_objs h p))) = check_arrays h (ptr (Checks (plugin_objs h p)))"
      using own that True by (intro e4) auto
    ultimately show ?thesis using True by simp
  qed
  show ?thesis
    unfolding filter_effect_def using e1 g3 g4 g5 by blast
qed

lemma filter_effect_Cons_kept:
  assumes eff: "filter_effect keep rs h3 h'"
    and h3: "h3 = (commit_plugin keep h p)\<lparr>plugin_arrays := X\<rparr>"
    and ok: "plugins_ok h (Some p # rs)"
    and kept: "plugin_kept keep h (Some p)"
  shows "filter_effect keep (Some p # rs) h h'"
proof -
  let ?cs = "\<lambda>q. Checks (plugin_objs h q)"
  let ?K = "\<lambda>q. kept_checks keep h (Some q)"
  from kept have K: "?K p \<noteq> []" by (simp add: plugin_kept_def)
  from ok have sp: "slice_ok h (?cs p)" and np: "Some p \<notin> set rs" and okr: "plugins_ok h rs"
    and own: "\<And>q. Some q \<in> set rs \<Longrightarrow> len (?cs q) = 0 \<or> ptr (?cs q) \<noteq> ptr (?cs p)"
    using kept_checks_nonempty_len [OF K] by (simp_all add: plugins_ok_Cons)
  from okr have nn: "None \<notin> set rs" by (simp add: plugins_ok_def)
  note ag = commit_plugin_agree [OF ok K h3]
  note sa2 = stores_agree(2) [OF ag nn, where keep = keep]
  have a1: "plugin_objs h3 q = plugin_objs h q" if "Some q \<in> set rs" for q
    using ag(1) that by blast
  have a2: "kept_checks keep h3 (Some q) = ?K q" if "Some q \<in> set rs" for q
    using sa2 that by blast
  have a2': "plugin_kept keep h3 (Some q) = plugin_kept keep h (Some q)" if "Some q \<in> set rs" for q
    using a2 [OF that] by (simp add: plugin_kept_def)
  have a4: "plugin_objs h3 q = (if q = p then (plugin_objs h p)\<lparr>Checks := (?cs p)\<lparr>len := length (?K p)\<rparr>\<rparr>
                                else plugin_objs h q)" for q
    by (simp add: h3 commit_plugin_def Let_def)
  have a5: "check_arrays h3 a = (if a = ptr (?cs p) then overwrite (check_arrays h a) 0 (?K p)
                                 else check_arrays h a)" for a
    by (simp add: h3 commit_plugin_def Let_def)
  from eff have
    e1: "check_objs h' = check_objs h3" "next_free h' = next_free h3" and
    e3: "\<And>q. plugin_objs h' q =
         (if Some q \<in> set rs \<and> plugin_kept keep h3 (Some q)
          then (plugin_objs h3 q)\<lparr>Checks := (Checks (plugin_objs h3 q))
                  \<lparr>len := length (kept_checks keep h3 (Some q))\<rparr>\<rparr>
          else plugin_objs h3 q)" and
    e4: "\<And>a. (\<forall>q. Some q \<in> set rs \<longrightarrow>
               len (Checks (plugin_objs h3 q)) = 0 \<or> ptr (Checks (plugin_objs h3 q)) \<noteq> a) \<Longrightarrow>
           check_arrays h' a = check_arrays h3 a" and
    e5: "\<And>q. Some q \<in> set rs \<Longrightarrow> 0 < len (Checks (plugin_objs h3 q)) \<Longrightarrow>
           check_arrays h' (ptr (Checks (plugin_objs h3 q))) =
             overwrite (check_arrays h3 (ptr (Checks (plugin_objs h3 q)))) 0
               (kept_checks keep h3 (Some q))"
    by (simp_all add: filter_effect_def)
  have g1: "check_objs h' = check_objs h" "next_free h' = next_free h"
    using e1 by (simp_all add: h3 commit_plugin_def Let_def)
  have g3: "plugin_objs h' q =
         (if Some q \<in> set (Some p # rs) \<and> plugin_kept keep h (Some q)
          then (plugin_objs h q)\<lparr>Checks := (?cs q)\<lparr>len := length (?K q)\<rparr>\<rparr>
          else plugin_objs h q)" for q
  proof (cases "q = p")
    case True
    with e3 [of p] np a4 [of p] kept show ?thesis by simp
  next
    case False
    show ?thesis
    proof (cases "Some q \<in> set rs")
      case True
      with e3 [of q] a1 [OF True] a2 [OF True] a2' [OF True] False show ?thesis by simp
    next
      case nin: False
      with e3 [of q] a4 [of q] False show ?thesis by simp
    qed
  qed
  have g4: "check_arrays h' a = check_arrays h a"
    if "\<forall>q. Some q \<in> set (Some p # rs) \<longrightarrow> len (?cs q) = 0 \<or> ptr (?cs q) \<noteq> a" for a
  proof -
    from that kept_checks_nonempty_len [OF K] have "ptr (?cs p) \<noteq> a" by auto
    moreover have "check_arrays h' a = check_arrays h3 a"
      using that a1 by (intro e4) auto
    ultimately show ?thesis by (simp add: a5)
  qed
  have g5: "check_arrays h' (ptr (?cs q)) = overwrite (check_arrays h (ptr (?cs q))) 0 (?K q)"
    if "Some q \<in> set (Some p # rs)" "0 < len (?cs q)" for q
  proof (cases "q = p")
    case True
    have "check_arrays h' (ptr (?cs p)) = check_arrays h3 (ptr (?cs p))"
      using own a1 by (intro e4) auto
    then show ?thesis using True by (simp add: a5)
  next
    case False
    with that have q: "Some q \<in> set rs" by simp
    from own [OF q] that(2) have ne: "ptr (?cs q) \<noteq> ptr (?cs p)" by simp
    from e5 [of q] q that(2) a1 [OF q] a2 [OF q]
    have "check_arrays h' (ptr (?cs q)) = overwrite (check_arrays h3 (ptr (?cs q))) 0 (?K q)"
      by simp
    with ne show ?thesis by (simp add: a5)
  qed
  show ?thesis
    unfolding filter_effect_def using g1 g3 g4 g5 by blast
qed

lemma store_plugin_arrays_triv [simp]:
  "(plugin_arrays h)(a := plugin_arrays h a) = plugin_arrays h"
  by simp

lemma filter_plugins_loop_spec:
  assumes "ptr fp = ptr ps" "cap fp = cap ps" "len fp \<le> i" "i \<le> len ps" "len ps \<le> cap ps"
    "cap ps \<le> length (plugin_arrays h (ptr ps))" "plugins_ok h (drop i (plugin_refs h ps))"
  shows "\<exists>h'. filter_plugins_loop keep ps i h fp =
              Inr (h', fp\<lparr>len := len fp
                     + length (filter (plugin_kept keep h) (drop i (plugin_refs h ps)))\<rparr>) \<and>
            plugin_arrays h' = (plugin_arrays h)
              (ptr ps := overwrite (plugin_arrays h (ptr ps)) (len fp)
                 (filter (plugin_kept keep h) (drop i (plugin_refs h ps)))) \<and>
            filter_effect keep (drop i (plugin_refs h ps)) h h'"
  using assms
proof (induction "len ps - i" arbitrary: i h fp)
  case 0
  then have "i = len ps" by simp
  then have "drop i (plugin_refs h ps) = []" by (simp add: plugin_refs_def)
  moreover have "filter_plugins_loop keep ps i h fp = Inr (h, fp)"
    using \<open>i = len ps\<close> by (subst filter_plugins_loop.simps) simp
  ultimately show ?case by (simp add: filter_effect_Nil)
next
  case (Suc n)
  let ?PA = "plugin_arrays h (ptr ps)"
  let ?rs' = "drop (Suc i) (plugin_refs h ps)"
  from Suc.hyps(2) have i: "i < len ps" by simp
  with Suc.prems have iA: "i < length ?PA" and k: "len fp < cap fp" "len fp < length ?PA" by auto
  have "i < length (plugin_refs h ps)"
    using i iA by (simp add: plugin_refs_def)
  from Cons_nth_drop_Suc [OF this, symmetric]
  have dr: "drop i (plugin_refs h ps) = ?PA ! i # ?rs'"
    using i by (simp add: plugin_refs_def)
  with Suc.prems(7) obtain p where p: "?PA ! i = Some p"
    by (cases "?PA ! i") (auto simp: plugins_ok_def)
  from Suc.prems(7) have ok: "plugins_ok h (Some p # ?rs')" by (simp add: dr p)
  then have sp: "slice_ok h (Checks (plugin_objs h p))" and np: "Some p \<notin> set ?rs'"
    and okr: "plugins_ok h ?rs'"
    and own: "0 < len (Checks (plugin_objs h p)) \<longrightarrow>
        (\<forall>q. Some q \<in> set ?rs' \<longrightarrow> len (Checks (plugin_objs h q)) = 0
                \<or> ptr (Checks (plugin_objs h q)) \<noteq> ptr (Checks (plugin_objs h p)))"
    by (simp_all add: plugins_ok_Cons)
  note unf = filter_plugins_loop_unfold [OF i p sp k(1), of keep]
  show ?case
  proof (cases "plugin_kept keep h (Some p)")
    case False
    then have K: "kept_checks keep h (Some p) = []" by (simp add: plugin_kept_def)
    have "n = len ps - Suc i" using Suc.hyps(2) by simp
    from Suc.hyps(1) [OF this Suc.prems(1,2) _ _ Suc.prems(5,6) okr] Suc.prems(3) i
    obtain h' where
      h': "filter_plugins_loop keep ps (Suc i) h fp =
              Inr (h', fp\<lparr>len := len fp + length (filter (plugin_kept keep h) ?rs')\<rparr>)"
          "plugin_arrays h' = (plugin_arrays h)
              (ptr ps := overwrite ?PA (len fp) (filter (plugin_kept keep h) ?rs'))"
          "filter_effect keep ?rs' h h'"
      by auto
    from filter_effect_Cons_dropped [OF h'(3) False np own]
    have "filter_effect keep (Some p # ?rs') h h'" .
    with h'(1,2) unf K False show ?thesis
      by (simp add: dr p)
  next
    case True
    then have K: "kept_checks keep h (Some p) \<noteq> []" by (simp add: plugin_kept_def)
    let ?X = "(plugin_arrays h)(ptr fp := ?PA[len fp := Some p])"
    let ?h3 = "(commit_plugin keep h p)\<lparr>plugin_arrays := ?X\<rparr>"
    let ?fp3 = "fp\<lparr>len := Suc (len fp)\<rparr>"
    have PA3: "plugin_arrays ?h3 (ptr ps) = ?PA[len fp := Some p]"
      using Suc.prems(1) by simp
    have refs3: "drop (Suc i) (plugin_refs ?h3 ps) = ?rs'"
      using Suc.prems(1,3) by (simp add: plugin_refs_def take_update_swap)
    have nn: "None \<notin> set ?rs'" using okr by (simp add: plugins_ok_def)
    note ag = commit_plugin_agree [OF ok K refl, of ?X]
    note sa = stores_agree [OF ag nn]
    have ok3: "plugins_ok ?h3 (drop (Suc i) (plugin_refs ?h3 ps))"
      using sa(1) okr by (simp only: refs3)
    have kp3: "filter (plugin_kept keep ?h3) ?rs' = filter (plugin_kept keep h) ?rs'"
      by (rule sa(3))
    have "n = len ps - Suc i" using Suc.hyps(2) by simp
    from Suc.hyps(1) [OF this, of ?fp3 ?h3] Suc.prems i ok3 PA3
    obtain h' where
      h': "filter_plugins_loop keep ps (Suc i) ?h3 ?fp3 =
              Inr (h', ?fp3\<lparr>len := len ?fp3 + length (filter (plugin_kept keep ?h3)
                        (drop (Suc i) (plugin_refs ?h3 ps)))\<rparr>)"
          "plugin_arrays h' = (plugin_arrays ?h3)
              (ptr ps := overwrite (plugin_arrays ?h3 (ptr ps)) (len ?fp3)
                 (filter (plugin_kept keep ?h3) (drop (Suc i) (plugin_refs ?h3 ps))))"
          "filter_effect keep (drop (Suc i) (plugin_refs ?h3 ps)) ?h3 h'"
      by auto
    from filter_effect_Cons_kept [OF h'(3) [unfolded refs3] refl ok True]
    have eff: "filter_effect keep (Some p # ?rs') h h'" .
    have arr: "plugin_arrays h' = (plugin_arrays h)
              (ptr ps := overwrite ?PA (len fp) (Some p # filter (plugin_kept keep h) ?rs'))"
      using h'(2) [unfolded refs3 kp3] k(2) Suc.prems(1)
      by (simp add: overwrite_update)
    from h'(1) [unfolded refs3 kp3] unf K True eff arr Suc.prems(1) show ?thesis
      by (simp add: dr p)
  qed
qed

lemma take_overwrite_0:
  "length ys \<le> n \<Longrightarrow> take n (overwrite xs 0 ys) = overwrite (take n xs) 0 ys"
  by (simp add: overwrite_def drop_take)

lemma take_length_overwrite_0: "take (length ys) (overwrite xs 0 ys) = ys"
  by (simp add: overwrite_def)

lemma filter_signatures_spec:
  assumes "wf_signatures h s"
  shows "\<exists>h'. filter_signatures keep h s =
              Inr (h', s\<lparr>Plugins := (Plugins s)
                     \<lparr>len := length (filter (plugin_kept keep h) (plugin_refs h (Plugins s)))\<rparr>\<rparr>) \<and>
            plugin_arrays h' = (plugin_arrays h)
              (ptr (Plugins s) := overwrite (plugin_arrays h (ptr (Plugins s))) 0
                 (filter (plugin_kept keep h) (plugin_refs h (Plugins s)))) \<and>
            filter_effect keep (plugin_refs h (Plugins s)) h h'"
proof -
  from assms filter_plugins_loop_spec [of "(Plugins s)\<lparr>len := 0\<rparr>" "Plugins s" 0 h keep]
  obtain h' where
    "filter_plugins_loop keep (Plugins s) 0 h ((Plugins s)\<lparr>len := 0\<rparr>) =
       Inr (h', (Plugins s)\<lparr>len := length (filter (plugin_kept keep h) (plugin_refs h (Plugins s)))\<rparr>)"
    "plugin_arrays h' = (plugin_arrays h)
              (ptr (Plugins s) := overwrite (plugin_arrays h (ptr (Plugins s))) 0
                 (filter (plugin_kept keep h) (plugin_refs h (Plugins s))))"
    "filter_effect keep (plugin_refs h (Plugins s)) h h'"
    by (auto simp: wf_signatures_def)
  then show ?thesis
    by (simp add: filter_signatures_def)
qed

lemma length_kept_le_len:
  "length (kept_checks keep h r) \<le> len (checks_slice h r)"
proof -
  have "length (kept_checks keep h r) \<le> length (check_refs h (checks_slice h r))"
    by (simp add: kept_checks_def)
  also have "\<dots> \<le> len (checks_slice h r)" by (simp add: check_refs_def)
  finally show ?thesis .
qed

lemma ref_in_Some: "r \<in> set rs \<Longrightarrow> None \<notin> set rs \<Longrightarrow> \<exists>q. r = Some q"
  by (cases r) auto

lemma filter_effect_views:
  assumes wf: "wf_signatures h s"
    and arr: "plugin_arrays h' = (plugin_arrays h)
              (ptr (Plugins s) := overwrite (plugin_arrays h (ptr (Plugins s))) 0
                 (filter (plugin_kept keep h) (plugin_refs h (Plugins s))))"
    and eff: "filter_effect keep (plugin_refs h (Plugins s)) h h'"
    and s': "s' = s\<lparr>Plugins := (Plugins s)
                     \<lparr>len := length (filter (plugin_kept keep h) (plugin_refs h (Plugins s)))\<rparr>\<rparr>"
  shows kept_refs: "plugin_refs h' (Plugins s') = filter (plugin_kept keep h) (plugin_refs h (Plugins s))"
    and alias_refs: "plugin_refs h' (Plugins s) =
           overwrite (plugin_refs h (Plugins s)) 0 (plugin_refs h' (Plugins s'))"
    and alias_checks: "\<forall>r\<in>set (plugin_refs h (Plugins s)).
           check_refs h' (checks_slice h r) =
             overwrite (check_refs h (checks_slice h r)) 0 (kept_checks keep h r)"
    and kept_slices: "\<forall>r\<in>set (plugin_refs h' (Plugins s')).
           checks_slice h' r = (checks_slice h r)\<lparr>len := length (kept_checks keep h r)\<rparr> \<and>
           check_refs h' (checks_slice h' r) = kept_checks keep h r"
    and same_lengths: "\<forall>a. length (check_arrays h' a) = length (check_arrays h a)"
proof -
  let ?rs = "plugin_refs h (Plugins s)"
  let ?KP = "filter (plugin_kept keep h) ?rs"
  from wf have bounds: "len (Plugins s) \<le> length (plugin_arrays h (ptr (Plugins s)))"
    and ok: "plugins_ok h ?rs" by (simp_all add: wf_signatures_def)
  from ok have nn: "None \<notin> set ?rs" and sok: "\<And>r. r \<in> set ?rs \<Longrightarrow> slice_ok h (checks_slice h r)"
    by (simp_all add: plugins_ok_def list_all_iff)
  from eff have
    e3: "\<And>q. plugin_objs h' q =
         (if Some q \<in> set ?rs \<and> plugin_kept keep h (Some q)
          then (plugin_objs h q)\<lparr>Checks := (Checks (plugin_objs h q))
                  \<lparr>len := length (kept_checks keep h (Some q))\<rparr>\<rparr>
          else plugin_objs h q)" and
    e4: "\<And>a. (\<forall>q. Some q \<in> set ?rs \<longrightarrow>
               len (Checks (plugin_objs h q)) = 0 \<or> ptr (Checks (plugin_objs h q)) \<noteq> a) \<Longrightarrow>
           check_arrays h' a = check_arrays h a" and
    e5: "\<And>q. Some q \<in> set ?rs \<Longrightarrow> 0 < len (Checks (plugin_objs h q)) \<Longrightarrow>
           check_arrays h' (ptr (Checks (plugin_objs h q))) =
             overwrite (check_arrays h (ptr (Checks (plugin_objs h q)))) 0
               (kept_checks keep h (Some q))"
    by (simp_all add: filter_effect_def)
  show kr: "plugin_refs h' (Plugins s') = ?KP"
    by (simp add: plugin_refs_def [of h'] s' arr take_length_overwrite_0)
  have "length ?KP \<le> length ?rs" by simp
  also have "\<dots> = len (Plugins s)" using bounds by (simp add: plugin_refs_def)
  finally have "length ?KP \<le> len (Plugins s)" .
  then show "plugin_refs h' (Plugins s) = overwrite ?rs 0 (plugin_refs h' (Plugins s'))"
    unfolding kr by (simp add: plugin_refs_def [of h'] arr take_overwrite_0) (simp add: plugin_refs_def)
  have ac: "check_refs h' (checks_slice h r) =
             overwrite (check_refs h (checks_slice h r)) 0 (kept_checks keep h r)"
    if r: "r \<in> set ?rs" for r
  proof -
    from ref_in_Some [OF r nn] obtain q where q: "r = Some q" by blast
    show ?thesis
    proof (cases "len (checks_slice h r) = 0")
      case True
      then show ?thesis by (simp add: check_refs_def kept_checks_def)
    next
      case False
      with q r have "check_arrays h' (ptr (checks_slice h r)) =
             overwrite (check_arrays h (ptr (checks_slice h r))) 0 (kept_checks keep h r)"
        using e5 [of q] by (simp add: checks_slice_def)
      then show ?thesis
        using length_kept_le_len [of keep h r]
        by (simp add: check_refs_def [of h'] take_overwrite_0) (simp add: check_refs_def)
    qed
  qed
  then show "\<forall>r\<in>set ?rs. check_refs h' (checks_slice h r) =
             overwrite (check_refs h (checks_slice h r)) 0 (kept_checks keep h r)"
    by blast
  show "\<forall>r\<in>set (plugin_refs h' (Plugins s')).
           checks_slice h' r = (checks_slice h r)\<lparr>len := length (kept_checks keep h r)\<rparr> \<and>
           check_refs h' (checks_slice h' r) = kept_checks keep h r"
    unfolding kr
  proof
    fix r assume "r \<in> set ?KP"
    then have r: "r \<in> set ?rs" and kept: "plugin_kept keep h r" by simp_all
    from ref_in_Some [OF r nn] obtain q where q: "r = Some q" by blast
    have sl: "checks_slice h' r = (checks_slice h r)\<lparr>len := length (kept_checks keep h r)\<rparr>"
      using e3 [of q] r kept q by (simp add: checks_slice_def)
    have "check_refs h' (checks_slice h' r)
            = take (length (kept_checks keep h r)) (check_refs h' (checks_slice h r))"
      using length_kept_le_len [of keep h r]
      by (simp add: sl check_refs_def min_def)
    also have "\<dots> = kept_checks keep h r"
      by (simp add: ac [OF r] take_length_overwrite_0)
    finally show "checks_slice h' r = (checks_slice h r)\<lparr>len := length (kept_checks keep h r)\<rparr> \<and>
           check_refs h' (checks_slice h' r) = kept_checks keep h r"
      using sl by simp
  qed
  show "\<forall>a. length (check_arrays h' a) = length (check_arrays h a)"
  proof
    fix a
    show "length (check_arrays h' a) = length (check_arrays h a)"
    proof (cases "\<forall>q. Some q \<in> set ?rs \<longrightarrow>
               len (Checks (plugin_objs h q)) = 0 \<or> ptr (Checks (plugin_objs h q)) \<noteq> a")
      case True
      then show ?thesis by (simp add: e4)
    next
      case False
      then obtain q where q: "Some q \<in> set ?rs" "0 < len (Checks (plugin_objs h q))"
        "ptr (Checks (plugin_objs h q)) = a" by auto
      from sok [OF q(1)] have "slice_ok h (Checks (plugin_objs h q))"
        by (simp add: checks_slice_def)
      from length_kept_checks_le [OF this, of keep] e5 [OF q(1,2)] q(3)
      show ?thesis by simp
    qed
  qed
qed

lemma filtered_view_idem: "filtered_view k (filtered_view k v) = filtered_view k v"
  by (induction v) (auto simp: filtered_view_def)

lemma filtered_view_signature_view:
  "filtered_view (ref_keeps keep h) (signature_view h s) =
     map (\<lambda>r. (r, kept_checks keep h r)) (filter (plugin_kept keep h) (plugin_refs h (Plugins s)))"
  by (induction "plugin_refs h (Plugins s)")
     (simp_all add: filtered_view_def signature_view_def filter_map comp_def kept_checks_def
        plugin_kept_def)

lemma filter_effect_wf:
  assumes wf: "wf_signatures h s"
    and arr: "plugin_arrays h' = (plugin_arrays h)
              (ptr (Plugins s) := overwrite (plugin_arrays h (ptr (Plugins s))) 0
                 (filter (plugin_kept keep h) (plugin_refs h (Plugins s))))"
    and eff: "filter_effect keep (plugin_refs h (Plugins s)) h h'"
    and s': "s' = s\<lparr>Plugins := (Plugins s)
                     \<lparr>len := length (filter (plugin_kept keep h) (plugin_refs h (Plugins s)))\<rparr>\<rparr>"
  shows "wf_signatures h' s'"
proof -
  let ?rs = "plugin_refs h (Plugins s)"
  let ?KP = "filter (plugin_kept keep h) ?rs"
  note v = filter_effect_views [OF wf arr eff s']
  from wf have b1: "len (Plugins s) \<le> cap (Plugins s)"
    and b2: "cap (Plugins s) \<le> length (plugin_arrays h (ptr (Plugins s)))"
    and ok: "plugins_ok h ?rs" by (simp_all add: wf_signatures_def)
  from ok have nn: "None \<notin> set ?rs" and dist: "distinct ?rs"
    and sok: "\<And>r. r \<in> set ?rs \<Longrightarrow> slice_ok h (checks_slice h r)"
    and own: "distinct (map (\<lambda>r. ptr (checks_slice h r)) (filter (\<lambda>r. 0 < len (checks_slice h r)) ?rs))"
    by (simp_all add: plugins_ok_def list_all_iff)
  have lenKP: "length ?KP \<le> len (Plugins s)"
  proof -
    have "length ?KP \<le> length ?rs" by simp
    also have "\<dots> \<le> len (Plugins s)" by (simp add: plugin_refs_def)
    finally show ?thesis .
  qed
  have c1: "len (Plugins s') \<le> cap (Plugins s')"
    using lenKP b1 by (simp add: s')
  have c2: "cap (Plugins s') \<le> length (plugin_arrays h' (ptr (Plugins s')))"
    using lenKP b1 b2 by (simp add: s' arr)
  have kr: "plugin_refs h' (Plugins s') = ?KP" by (rule v(1))
  have sl: "checks_slice h' r = (checks_slice h r)\<lparr>len := length (kept_checks keep h r)\<rparr>"
    and cr: "check_refs h' (checks_slice h' r) = kept_checks keep h r" if "r \<in> set ?KP" for r
    using v(4) that unfolding kr by blast+
  have p1: "None \<notin> set ?KP" using nn by simp
  have p2: "distinct ?KP" using dist by simp
  have p3: "slice_ok h' (checks_slice h' r)" if r: "r \<in> set ?KP" for r
  proof -
    from r have r': "r \<in> set ?rs" by simp
    from sok [OF r'] have "len (checks_slice h r) \<le> cap (checks_slice h r)"
      "cap (checks_slice h r) \<le> length (check_arrays h (ptr (checks_slice h r)))"
      "None \<notin> set (check_refs h (checks_slice h r))"
      by (simp_all add: slice_ok_def)
    moreover have "set (kept_checks keep h r) \<subseteq> set (check_refs h (checks_slice h r))"
      by (auto simp: kept_checks_def)
    ultimately show ?thesis
      using length_kept_le_len [of keep h r] v(5)
      by (auto simp: slice_ok_def sl [OF r] cr [OF r, unfolded sl [OF r]])
  qed
  have pos: "0 < len (checks_slice h r)" if "r \<in> set ?KP" for r
  proof -
    from that have "kept_checks keep h r \<noteq> []" by (simp add: plugin_kept_def)
    with length_kept_le_len [of keep h r] show ?thesis by (cases "kept_checks keep h r") auto
  qed
  have pos': "0 < len (checks_slice h' r)" if "r \<in> set ?KP" for r
    using that by (simp add: sl [OF that] plugin_kept_def)
  have f1: "filter (\<lambda>r. 0 < len (checks_slice h' r)) ?KP = ?KP"
    using pos' by (simp add: filter_id_conv del: filter_filter)
  have f2: "map (\<lambda>r. ptr (checks_slice h' r)) ?KP = map (\<lambda>r. ptr (checks_slice h r)) ?KP"
    by (rule map_cong) (simp_all add: sl del: filter_filter)
  have f3: "?KP = filter (plugin_kept keep h) (filter (\<lambda>r. 0 < len (checks_slice h r)) ?rs)"
    using pos by (auto intro: filter_cong)
  have p4: "distinct (map (\<lambda>r. ptr (checks_slice h' r)) (filter (\<lambda>r. 0 < len (checks_slice h' r)) ?KP))"
    unfolding f1 f2 by (subst f3) (rule distinct_map_filter [OF own])
  show ?thesis
    unfolding wf_signatures_def plugins_ok_def kr
    using c1 c2 p1 p2 p3 p4 by (simp add: list_all_iff del: filter_filter)
qed

lemma filter_signatures_view:
  assumes wf: "wf_signatures h s"
  shows "\<exists>h' s'. filter_signatures keep h s = Inr (h', s') \<and>
           signature_view h' s' = filtered_view (ref_keeps keep h) (signature_view h s) \<and>
           check_objs h' = check_objs h \<and> wf_signatures h' s'"
proof -
  let ?s' = "s\<lparr>Plugins := (Plugins s)
                     \<lparr>len := length (filter (plugin_kept keep h) (plugin_refs h (Plugins s)))\<rparr>\<rparr>"
  from filter_signatures_spec [OF wf, of keep] obtain h' where
    r: "filter_signatures keep h s = Inr (h', ?s')" and
    arr: "plugin_arrays h' = (plugin_arrays h)
              (ptr (Plugins s) := overwrite (plugin_arrays h (ptr (Plugins s))) 0
                 (filter (plugin_kept keep h) (plugin_refs h (Plugins s))))" and
    eff: "filter_effect keep (plugin_refs h (Plugins s)) h h'" by blast
  note v = filter_effect_views [OF wf arr eff refl]
  have "signature_view h' ?s' =
          map (\<lambda>r. (r, kept_checks keep h r)) (filter (plugin_kept keep h) (plugin_refs h (Plugins s)))"
    unfolding signature_view_def v(1) using v(4) [unfolded v(1)]
    by (intro map_cong) auto
  then have "signature_view h' ?s' = filtered_view (ref_keeps keep h) (signature_view h s)"
    by (simp add: filtered_view_signature_view)
  moreover have "check_objs h' = check_objs h" using eff by (simp add: filter_effect_def)
  moreover note filter_effect_wf [OF wf arr eff refl] r
  ultimately show ?thesis by blast
qed

lemma filter_signatures_idem:
  assumes wf: "wf_signatures h s" and r: "filter_signatures keep h s = Inr (h', s')"
  shows "\<exists>h'' s''. filter_signatures keep h' s' = Inr (h'', s'') \<and>
           signature_view h'' s'' = signature_view h' s' \<and> check_objs h'' = check_objs h'"
proof -
  from filter_signatures_view [OF wf, of keep] r have
    v1: "signature_view h' s' = filtered_view (ref_keeps keep h) (signature_view h s)" and
    c1: "check_objs h' = check_objs h" and wf': "wf_signatures h' s'" by auto
  from filter_signatures_view [OF wf', of keep] obtain h'' s'' where
    r2: "filter_signatures keep h' s' = Inr (h'', s'')" and
    v2: "signature_view h'' s'' = filtered_view (ref_keeps keep h') (signature_view h' s')" and
    c2: "check_objs h'' = check_objs h'" by blast
  have "signature_view h'' s'' = signature_view h' s'"
    unfolding v2 v1 ref_keeps_cong [OF c1] by (rule filtered_view_idem)
  with r2 c2 show ?thesis by blast
qed
















lemma filter_signatures_in_place:
  assumes wf: "wf_signatures h s"
  shows "\<exists>h' s'. filter_signatures keep h s = Inr (h', s') \<and> written_in_place keep h s h' s'"
proof -
  let ?s' = "s\<lparr>Plugins := (Plugins s)
                     \<lparr>len := length (filter (plugin_kept keep h) (plugin_refs h (Plugins s)))\<rparr>\<rparr>"
  from filter_signatures_spec [OF wf, of keep] obtain h' where
    r: "filter_signatures keep h s = Inr (h', ?s')" and
    arr: "plugin_arrays h' = (plugin_arrays h)
              (ptr (Plugins s) := overwrite (plugin_arrays h (ptr (Plugins s))) 0
                 (filter (plugin_kept keep h) (plugin_refs h (Plugins s))))" and
    eff: "filter_effect keep (plugin_refs h (Plugins s)) h h'" by blast
  note v = filter_effect_views [OF wf arr eff refl]
  from eff have c: "check_objs h' = check_objs h"
    and o: "\<And>q. plugin_objs h' q = (plugin_objs h q)\<lparr>Checks := Checks (plugin_objs h' q)\<rparr>"
    by (simp_all add: filter_effect_def)
  have "written_in_place keep h s h' ?s'"
    unfolding written_in_place_def
    using c o v(2) v(3) by (simp add: kept_checks_def)
  with r show ?thesis by blast
qed

lemma filtered_view_kept:
  assumes "(r, cs) \<in> set (filtered_view keepr v)"
  shows "cs \<noteq> [] \<and> (\<forall>c\<in>set cs. keepr c) \<and> (\<exists>cs0. (r, cs0) \<in> set v \<and> cs = filter keepr cs0)"
  using assms by (auto simp: filtered_view_def)

lemma filtered_view_checks:
  assumes v: "signature_view h' s' = filtered_view (ref_keeps keep h) v"
    and c: "check_objs h' = check_objs h"
  shows "\<forall>(r, cs)\<in>set (signature_view h' s').
           cs \<noteq> [] \<and> (\<forall>c\<in>set cs. \<exists>a. c = Some a \<and> keep (check_objs h' a))"
proof (intro ballI, clarify)
  fix r cs assume "(r, cs) \<in> set (signature_view h' s')"
  with v have "(r, cs) \<in> set (filtered_view (ref_keeps keep h) v)" by simp
  from filtered_view_kept [OF this] have ne: "cs \<noteq> []" and k: "\<forall>c\<in>set cs. ref_keeps keep h c"
    by simp_all
  have "\<exists>a. x = Some a \<and> keep (check_objs h' a)" if "x \<in> set cs" for x
    using k that c by (cases x) (auto simp: ref_keeps_def)
  with ne show "cs \<noteq> [] \<and> (\<forall>c\<in>set cs. \<exists>a. c = Some a \<and> keep (check_objs h' a))"
    by blast
qed

text \<open>
  C6. On a store that represents a signature set, \<open>FilterBySeverity L\<close> returns, and
  the signature set it leaves is the old one with every check list cut down to the
  checks whose severity equals \<open>L\<close> and every plugin without such a check dropped (so
  every plugin that remains has a check, and every check that remains has severity
  \<open>L\<close>); no check is changed. A second call with the same \<open>L\<close> leaves the plugin list and every
  check list as the first call left them.
\<close>

theorem FilterBySeverity_exact_idempotent:
  assumes "wf_signatures h s"
  shows "\<exists>h' s' h'' s''.
           FilterBySeverity L h s = Inr (h', s') \<and>
           signature_view h' s' =
             filtered_view (ref_keeps (\<lambda>check. Severity check = L) h) (signature_view h s) \<and>
           (\<forall>(r, cs)\<in>set (signature_view h' s').
              cs \<noteq> [] \<and> (\<forall>c\<in>set cs. \<exists>a. c = Some a \<and> Severity (check_objs h' a) = L)) \<and>
           check_objs h' = check_objs h \<and>
           FilterBySeverity L h' s' = Inr (h'', s'') \<and>
           signature_view h'' s'' = signature_view h' s' \<and> check_objs h'' = check_objs h'"
proof -
  from filter_signatures_view [OF assms, of "\<lambda>check. Severity check = L"] obtain h' s' where
    r: "filter_signatures (\<lambda>check. Severity check = L) h s = Inr (h', s')" and
    v: "signature_view h' s' =
          filtered_view (ref_keeps (\<lambda>check. Severity check = L) h) (signature_view h s)" and
    c: "check_objs h' = check_objs h" by blast
  from filter_signatures_idem [OF assms r] obtain h'' s'' where
    "filter_signatures (\<lambda>check. Severity check = L) h' s' = Inr (h'', s'')"
    "signature_view h'' s'' = signature_view h' s'" "check_objs h'' = check_objs h'" by blast
  with r v c filtered_view_checks [OF v c] show ?thesis
    unfolding FilterBySeverity_def by blast
qed

theorem FilterBySeverity_exact_idempotent_witness:
  "wf_signatures ex_store ex_signatures \<and>
   view_after (FilterBySeverity ''High'' ex_store ex_signatures) = Some [(Some 1, [Some 2])]"
proof -
  have wf: "wf_signatures ex_store ex_signatures" by code_simp
  from FilterBySeverity_exact_idempotent [OF wf, of "''High''"] obtain h' s' where
    "FilterBySeverity ''High'' ex_store ex_signatures = Inr (h', s')"
    "signature_view h' s' =
       filtered_view (ref_keeps (\<lambda>check. Severity check = ''High'') ex_store)
         (signature_view ex_store ex_signatures)" by blast
  moreover have "filtered_view (ref_keeps (\<lambda>check. Severity check = ''High'') ex_store)
         (signature_view ex_store ex_signatures) = [(Some 1, [Some 2])]" by code_simp
  ultimately show ?thesis using wf by (simp add: view_after_def)
qed



text \<open>
  C5 (amended). On a store that represents a signature set, \<open>FilterBySeverity\<close> and
  \<open>FilterByNames\<close> change no \<open>Check\<close> object and change a \<open>Plugin\<close> object in its
  \<open>Checks\<close> field at most, but they filter in place: a holder of the old plugin list,
  or of the old check list of one of its plugins, observes after the call the kept
  entries written over the first positions of the list and the old entries behind them.
\<close>

theorem filters_write_in_place:
  assumes "wf_signatures h s"
  shows "(\<exists>h' s'. FilterBySeverity L h s = Inr (h', s') \<and>
            written_in_place (\<lambda>check. Severity check = L) h s h' s') \<and>
         (\<exists>h' s'. FilterByNames unicodeLower names h s = Inr (h', s') \<and>
            written_in_place (\<lambda>check. names_loop unicodeLower (Name check) names) h s h' s')"
  unfolding FilterBySeverity_def FilterByNames_def
  using filter_signatures_in_place [OF assms] by blast

theorem filters_write_in_place_witness:
  "wf_signatures ex_store ex_signatures \<and>
   plugins_seen_after (FilterByNames (\<lambda>s. s) [''login''] ex_store ex_signatures) (Plugins ex_signatures)
     = Some (overwrite [Some 0, Some 1] 0 [Some 1]) \<and>
   checks_seen_after (FilterByNames (\<lambda>s. s) [''login''] ex_store ex_signatures)
       (Checks (plugin_objs ex_store 1))
     = Some (overwrite [Some 1, Some 2] 0 [Some 2])"
proof -
  have wf: "wf_signatures ex_store ex_signatures" by code_simp
  from filters_write_in_place [OF wf, of "''High''" "\<lambda>s. s" "[''login'']"] obtain h' s' where
    r: "FilterByNames (\<lambda>s. s) [''login''] ex_store ex_signatures = Inr (h', s')" and
    w: "written_in_place (\<lambda>check. names_loop (\<lambda>s. s) (Name check) [''login'']) ex_store ex_signatures h' s'"
    by blast
  have v: "view_after (FilterByNames (\<lambda>s. s) [''login''] ex_store ex_signatures) = Some [(Some 1, [Some 2])]"
    by code_simp
  with r have kept: "plugin_refs h' (Plugins s') = [Some 1]"
    by (simp add: view_after_def signature_view_def map_eq_Cons_conv)
  have old: "plugin_refs ex_store (Plugins ex_signatures) = [Some 0, Some 1]"
    "checks_slice ex_store (Some 1) = Checks (plugin_objs ex_store 1)"
    "check_refs ex_store (Checks (plugin_objs ex_store 1)) = [Some 1, Some 2]"
    "filter (ref_keeps (\<lambda>check. names_loop (\<lambda>s. s) (Name check) [''login'']) ex_store) [Some 1, Some 2]
       = [Some 2]"
    by code_simp+
  from w have "plugin_refs h' (Plugins ex_signatures) = overwrite [Some 0, Some 1] 0 [Some 1]"
    and "check_refs h' (Checks (plugin_objs ex_store 1)) = overwrite [Some 1, Some 2] 0 [Some 2]"
    unfolding written_in_place_def kept old(1)
    using old(2,3,4) by auto
  with r wf show ?thesis
    by (simp add: plugins_seen_after_def checks_seen_after_def)
qed

theorem filters_alias_counterexample:
  "wf_signatures ex_store ex_signatures \<and>
   plugin_refs ex_store (Plugins ex_signatures) = [Some 0, Some 1] \<and>
   plugins_seen_after (FilterBySeverity ''High'' ex_store ex_signatures) (Plugins ex_signatures)
     = Some [Some 1, Some 1] \<and>
   check_refs ex_store (Checks (plugin_objs ex_store 1)) = [Some 1, Some 2] \<and>
   checks_seen_after (FilterBySeverity ''High'' ex_store ex_signatures)
       (Checks (plugin_objs ex_store 1))
     = Some [Some 2, Some 2]"
  by code_simp

section \<open>Properties of the goroutines\<close>

lemma reachable_launched:
  "scan_reachable n m st \<Longrightarrow> launched st \<le> n \<and> length (goroutines st) = launched st"
proof (induction rule: scan_reachable.induct)
  case start
  show ?case by simp
next
  case (step st st')
  from step.hyps(2) step.IH show ?case
    by (induction rule: scan_step.induct) auto
qed

lemma in_flight_le_length: "in_flight st \<le> length (goroutines st)"
  by (simp add: in_flight_def)

lemma launch_all: "k \<le> n \<Longrightarrow> scan_reachable n m \<lparr>launched = k, goroutines = replicate k (Ready 0)\<rparr>"
proof (induction k)
  case 0
  show ?case by (simp add: scan_reachable.start)
next
  case (Suc k)
  then have r: "scan_reachable n m \<lparr>launched = k, goroutines = replicate k (Ready 0)\<rparr>" by simp
  have "scan_step n m \<lparr>launched = k, goroutines = replicate k (Ready 0)\<rparr>
          (\<lparr>launched = k, goroutines = replicate k (Ready 0)\<rparr>
             \<lparr>launched := launched \<lparr>launched = k, goroutines = replicate k (Ready 0)\<rparr> + 1,
              goroutines := goroutines \<lparr>launched = k, goroutines = replicate k (Ready 0)\<rparr> @ [Ready 0]\<rparr>)"
    using Suc.prems by (intro scan_step.launch) simp
  then have "scan_step n m \<lparr>launched = k, goroutines = replicate k (Ready 0)\<rparr>
          \<lparr>launched = Suc k, goroutines = replicate (Suc k) (Ready 0)\<rparr>"
    by (simp add: replicate_append_same)
  with r show ?case by (rule scan_reachable.step)
qed

lemma request_all:
  assumes "0 < m"
  shows "j \<le> n \<Longrightarrow> scan_reachable n m
           \<lparr>launched = n, goroutines = replicate j (InFlight 0) @ replicate (n - j) (Ready 0)\<rparr>"
proof (induction j)
  case 0
  show ?case using launch_all [of n n m] by simp
next
  case (Suc j)
  let ?st = "\<lparr>launched = n, goroutines = replicate j (InFlight 0) @ replicate (n - j) (Ready 0)\<rparr>"
  from Suc have r: "scan_reachable n m ?st" by simp
  have "scan_step n m ?st (?st\<lparr>goroutines := (goroutines ?st)[j := InFlight 0]\<rparr>)"
    using Suc.prems assms by (intro scan_step.request) (auto simp: nth_append)
  moreover have "(replicate j (InFlight 0) @ replicate (n - j) (Ready 0))[j := InFlight 0]
        = replicate (Suc j) (InFlight 0) @ replicate (n - Suc j) (Ready 0)"
  proof -
    from Suc.prems have "n - j = Suc (n - Suc j)" by simp
    then show ?thesis
      by (simp add: list_update_append replicate_append_same)
  qed
  ultimately have "scan_step n m ?st
       \<lparr>launched = n, goroutines = replicate (Suc j) (InFlight 0) @ replicate (n - Suc j) (Ready 0)\<rparr>"
    by simp
  with r show ?case by (rule scan_reachable.step)
qed

text \<open>
  C4 (amended). A scan of \<open>n\<close> URLs launches one goroutine per URL, and each goroutine
  makes its requests one at a time: at every instant at most \<open>n\<close> requests are in
  flight. No configured limit enters: when there is a plugin to probe, a state with all
  \<open>n\<close> requests in flight at once can be reached.
\<close>

theorem in_flight_bound:
  "(scan_reachable n m st \<longrightarrow> in_flight st \<le> n) \<and>
   (0 < m \<longrightarrow> (\<exists>st. scan_reachable n m st \<and> in_flight st = n))"
proof (intro conjI impI)
  assume "scan_reachable n m st"
  from reachable_launched [OF this] in_flight_le_length [of st]
  show "in_flight st \<le> n" by simp
next
  assume "0 < m"
  from request_all [OF this, of n n]
  have "scan_reachable n m \<lparr>launched = n, goroutines = replicate n (InFlight 0)\<rparr>" by simp
  moreover have "in_flight \<lparr>launched = n, goroutines = replicate n (InFlight 0)\<rparr> = n"
    by (simp add: in_flight_def)
  ultimately show "\<exists>st. scan_reachable n m st \<and> in_flight st = n" by blast
qed

lemma two_in_flight:
  "scan_reachable 2 1 \<lparr>launched = 2, goroutines = [InFlight 0, InFlight 0]\<rparr>"
  using request_all [of 1 2 2] by (simp add: numeral_2_eq_2)

theorem in_flight_bound_witness:
  "scan_reachable 2 1 \<lparr>launched = 2, goroutines = [InFlight 0, InFlight 0]\<rparr> \<and>
   in_flight \<lparr>launched = 2, goroutines = [InFlight 0, InFlight 0]\<rparr> \<le> 2"
  using in_flight_bound [of 2 1 "\<lparr>launched = 2, goroutines = [InFlight 0, InFlight 0]\<rparr>"]
    two_in_flight
  by simp

theorem in_flight_counterexample:
  "scan_reachable 2 1 \<lparr>launched = 2, goroutines = [InFlight 0, InFlight 0]\<rparr> \<and>
   \<not> in_flight \<lparr>launched = 2, goroutines = [InFlight 0, InFlight 0]\<rparr> \<le> 1"
  using two_in_flight by (simp add: in_flight_def)

end
